theory Spec2Isabelle
  imports Main "HOL-Library.Multiset" "HOL-Library.Word"
begin

section \<open>Exceptions of the worker module\<close>

text \<open>
  The exception classes that \<^verbatim>\<open>worker.py\<close> raises or catches by name.
  \<^verbatim>\<open>HTTPError\<close> is a subclass of \<^verbatim>\<open>URLError\<close> in both urllib2 and
  urllib.error, so an \<^verbatim>\<open>except URLError\<close> clause also catches it. Every other
  subclass of \<^verbatim>\<open>Exception\<close> is \<open>OtherException\<close>. \<^verbatim>\<open>SystemExit\<close> and
  \<^verbatim>\<open>GeneratorExit\<close> are the exceptions a handler can end with that derive from
  \<^verbatim>\<open>BaseException\<close> and not from \<^verbatim>\<open>Exception\<close>: a clause
  \<^verbatim>\<open>except Exception\<close> lets them pass, a bare \<^verbatim>\<open>except\<close> does not.
\<close>

datatype exn =
    InvalidCheckSumException
  | BadZipfile
  | URLError
  | HTTPError
  | IOError
  | StructError
  | ZeroDivisionError
  | AttributeError
  | OtherException
  | SystemExit
  | GeneratorExit

fun is_Exception :: "exn \<Rightarrow> bool" where
  "is_Exception SystemExit = False"
| "is_Exception GeneratorExit = False"
| "is_Exception _ = True"

text \<open>A call either returns (\<open>None\<close>) or raises (\<open>Some e\<close>).\<close>

type_synonym completion = "exn option"

section \<open>The download stage: \<^verbatim>\<open>DownloadWorker\<close>\<close>

type_synonym bytes = "8 word list"

text \<open>
  What the handler touches outside Python: the files of the disk and the requests sent
  with \<^verbatim>\<open>urlopen\<close>, in the order they were sent.
\<close>

record world =
  fs :: "string \<rightharpoonup> bytes"
  requests :: "string list"

text \<open>
  The library calls the handler makes, taken as parameters:
  \<^item> \<open>path_join\<close> is \<^verbatim>\<open>os.path.join\<close>;
  \<^item> \<open>md5hex\<close> is \<^verbatim>\<open>hashlib.md5(data).hexdigest()\<close>;
  \<^item> \<open>is_zip\<close> tells whether \<^verbatim>\<open>zipfile.ZipFile(path)\<close> opens the data
    (it raises \<^verbatim>\<open>BadZipfile\<close> otherwise);
  \<^item> \<open>testzip\<close> is \<^verbatim>\<open>ZipFile.testzip()\<close>: the name of the first member
    with a bad CRC, or \<open>None\<close>;
  \<^item> \<open>urlopen\<close> answers the \<open>n\<close>-th request of the run (counted from 0): it raises, or
    gives the chunks that the successive \<^verbatim>\<open>read(4096)\<close> calls return before the
    empty one at the end of the stream;
  \<^item> \<open>stop_seen n j\<close> is what \<^verbatim>\<open>stop_event.is_set()\<close> answers when the
    \<open>j\<close>-th chunk of the \<open>n\<close>-th request has been read.
\<close>

record env =
  path_join :: "string \<Rightarrow> string \<Rightarrow> string"
  md5hex :: "bytes \<Rightarrow> string"
  is_zip :: "bytes \<Rightarrow> bool"
  testzip :: "bytes \<Rightarrow> string option"
  urlopen :: "string \<Rightarrow> nat \<Rightarrow> exn + bytes list"
  stop_seen :: "nat \<Rightarrow> nat \<Rightarrow> bool"

text \<open>A queue item of the download stage: the keys \<^verbatim>\<open>url\<close>, \<^verbatim>\<open>zip\<close>
  and the optional \<^verbatim>\<open>md5\<close>.\<close>

record download_item =
  url :: string
  zip_name :: string
  md5 :: "string option"

text \<open>\<^verbatim>\<open>DownloadWorker.__init__\<close> stores the folder and sets
  \<^verbatim>\<open>max_attempt = 3\<close>.\<close>

record download_worker =
  folder :: string
  max_attempt :: nat

definition DownloadWorker_init :: "string \<Rightarrow> download_worker" where
  "DownloadWorker_init fld = \<lparr>folder = fld, max_attempt = 3\<rparr>"

text \<open>Python's truth test on \<^verbatim>\<open>None\<close> or a string: only a non-empty string
  is true.\<close>

fun truthy :: "string option \<Rightarrow> bool" where
  "truthy None = False"
| "truthy (Some s) = (s \<noteq> [])"

text \<open>The second half of \<^verbatim>\<open>_validate_downloaded_file\<close>: open the archive and
  test the CRC of its members.\<close>

definition check_zip :: "env \<Rightarrow> world \<Rightarrow> string \<Rightarrow> completion" where
  "check_zip e w filepath =
     (case fs w filepath of
        None \<Rightarrow> Some IOError
      | Some data \<Rightarrow>
          if \<not> is_zip e data then Some BadZipfile
          else if truthy (testzip e data) then Some BadZipfile
          else None)"

definition validate_downloaded_file ::
    "env \<Rightarrow> world \<Rightarrow> string \<Rightarrow> string option \<Rightarrow> completion" where
  "validate_downloaded_file e w filepath md5sum =
     (if truthy md5sum then
        (case fs w filepath of
           None \<Rightarrow> Some IOError
         | Some data \<Rightarrow>
             if md5sum \<noteq> Some (md5hex e data) then Some InvalidCheckSumException
             else check_zip e w filepath)
      else check_zip e w filepath)"

text \<open>\<^verbatim>\<open>_file_exists\<close>: false when the path is no file, false when the validation
  raises anything, true otherwise.\<close>

definition file_exists :: "env \<Rightarrow> world \<Rightarrow> string \<Rightarrow> string option \<Rightarrow> bool" where
  "file_exists e w filepath md5sum =
     (if fs w filepath = None then False
      else (case validate_downloaded_file e w filepath md5sum of
              Some _ \<Rightarrow> False
            | None \<Rightarrow> True))"

text \<open>The transfer loop of \<^verbatim>\<open>_download_file\<close>: chunks are written while they
  are non-empty and the stop event is clear; the first chunk that is empty, or read after
  the event was set, ends the loop.\<close>

fun transfer :: "(nat \<Rightarrow> bool) \<Rightarrow> nat \<Rightarrow> bytes list \<Rightarrow> bytes" where
  "transfer stp j [] = []"
| "transfer stp j (d # ds) =
     (if d \<noteq> [] \<and> \<not> stp j then d @ transfer stp (Suc j) ds else [])"

definition download_file ::
    "download_worker \<Rightarrow> env \<Rightarrow> string \<Rightarrow> string \<Rightarrow> string option \<Rightarrow> world
       \<Rightarrow> completion \<times> world" where
  "download_file self e u filename md5sum w =
     (let file_fullpath = path_join e (folder self) filename in
      if file_exists e w file_fullpath md5sum then (None, w)
      else
        (let n = length (requests w);
             w1 = w\<lparr>requests := requests w @ [u]\<rparr> in
         case urlopen e u n of
           Inl err \<Rightarrow> (Some err, w1)
         | Inr chunks \<Rightarrow>
             (let w2 = w1\<lparr>fs := (fs w1)(file_fullpath \<mapsto> transfer (stop_seen e n) 0 chunks)\<rparr>
              in (validate_downloaded_file e w2 file_fullpath md5sum, w2))))"

text \<open>The \<^verbatim>\<open>except\<close> clauses of \<^verbatim>\<open>_secured_download_file\<close> that call the
  method again: the checksum and archive errors, \<^verbatim>\<open>URLError\<close> (which also takes
  \<^verbatim>\<open>HTTPError\<close>), and \<^verbatim>\<open>HTTPError\<close>. Anything else reaches the bare
  \<^verbatim>\<open>except\<close> and is raised again.\<close>

fun retried :: "exn \<Rightarrow> bool" where
  "retried InvalidCheckSumException = True"
| "retried BadZipfile = True"
| "retried URLError = True"
| "retried HTTPError = True"
| "retried IOError = False"
| "retried StructError = False"
| "retried ZeroDivisionError = False"
| "retried AttributeError = False"
| "retried SystemExit = False"
| "retried GeneratorExit = False"
| "retried OtherException = False"

text \<open>
  \<^verbatim>\<open>_secured_download_file\<close>. The recursive call sits in the \<^verbatim>\<open>except\<close>
  clause, outside the \<^verbatim>\<open>try\<close> body, so what it raises is not caught again by the
  caller's clauses.
\<close>

function secured_download_file ::
    "download_worker \<Rightarrow> env \<Rightarrow> string \<Rightarrow> string \<Rightarrow> string option \<Rightarrow> nat \<Rightarrow> exn \<Rightarrow> world
       \<Rightarrow> completion \<times> world" where
  "secured_download_file self e u filename md5sum attempt exc_error w =
     (if attempt > max_attempt self then (Some exc_error, w)
      else
        (case download_file self e u filename md5sum w of
           (None, w') \<Rightarrow> (None, w')
         | (Some err, w') \<Rightarrow>
             if retried err
             then secured_download_file self e u filename md5sum (attempt + 1) err w'
             else (Some err, w')))"
  by pat_completeness auto
termination
  by (relation "measure (\<lambda>(self, e, u, filename, md5sum, attempt, exc_error, w).
                   Suc (max_attempt self) - attempt)") auto

declare secured_download_file.simps [simp del]

text \<open>\<^verbatim>\<open>DownloadWorker.process\<close>; the default \<^verbatim>\<open>exc_error\<close> is
  \<^verbatim>\<open>Exception('not defined')\<close>.\<close>

text \<open>The call of \<^verbatim>\<open>_download_file\<close> that \<^verbatim>\<open>process\<close> makes for an item, at
  each attempt.\<close>

definition download_attempt ::
    "string \<Rightarrow> env \<Rightarrow> download_item \<Rightarrow> world \<Rightarrow> completion \<times> world" where
  "download_attempt fld e queue_item w =
     download_file (DownloadWorker_init fld) e
       (url queue_item) (zip_name queue_item) (md5 queue_item) w"

definition DownloadWorker_process ::
    "download_worker \<Rightarrow> env \<Rightarrow> download_item \<Rightarrow> world \<Rightarrow> completion \<times> world" where
  "DownloadWorker_process self e queue_item w =
     secured_download_file self e (url queue_item) (zip_name queue_item) (md5 queue_item)
       1 OtherException w"

section \<open>The import stage: \<^verbatim>\<open>HgtParser\<close> and \<^verbatim>\<open>ImportWorker._execute_import\<close>\<close>

text \<open>
  The parser as far as the elevation values need it: the two sample counts and the bytes
  of the opened file. The corner coordinates are floating-point geometry and play no part
  in the values read, so the \<^verbatim>\<open>square\<close> component of a sample is left out.
\<close>

record hgt_parser =
  sample_lat :: nat
  sample_lng :: nat
  file_bytes :: bytes

text \<open>\<^verbatim>\<open>struct.unpack('>h', buf)\<close>: a big-endian signed 16-bit integer; it raises
  \<^verbatim>\<open>struct.error\<close> unless the buffer has exactly two bytes.\<close>

fun unpack_be_short :: "bytes \<Rightarrow> exn + int" where
  "unpack_be_short [hi, lo] = Inr (sint (word_cat hi lo :: 16 word))"
| "unpack_be_short _ = Inl StructError"

text \<open>\<^verbatim>\<open>HgtParser.get_value\<close>: seek to \<open>idx * 2\<close>, read two bytes (fewer at the
  end of the file), decode, and give \<^verbatim>\<open>None\<close> for \<open>-32768\<close>.\<close>

definition get_value :: "hgt_parser \<Rightarrow> nat \<Rightarrow> exn + int option" where
  "get_value p idx =
     (case unpack_be_short (take 2 (drop (idx * 2) (file_bytes p))) of
        Inl err \<Rightarrow> Inl err
      | Inr val \<Rightarrow> Inr (if \<not> val = - 32768 then Some val else None))"

text \<open>What \<^verbatim>\<open>HgtValueIterator\<close> yields, without the square: line and column
  (one-based), index, elevation. The division is Python 2's integer division.\<close>

record hgt_sample =
  line :: nat
  col :: nat
  index :: nat
  elevation :: "int option"

definition hgt_yield :: "hgt_parser \<Rightarrow> nat \<Rightarrow> int option \<Rightarrow> hgt_sample" where
  "hgt_yield p idx v =
     \<lparr>line = idx div sample_lng p + 1, col = idx mod sample_lng p + 1,
      index = idx, elevation = v\<rparr>"

text \<open>
  \<^verbatim>\<open>HgtValueIterator\<close>. Its constructor stores the parser and nothing else; the
  attribute \<^verbatim>\<open>nb_values\<close>, which \<^verbatim>\<open>_execute_import\<close> reads, is set
  nowhere in \<^verbatim>\<open>hgt.py\<close>. An attribute of a Python object is there or not, so it
  is an optional field: \<open>None\<close> is the missing attribute.
\<close>

record value_iterator =
  parser :: hgt_parser
  nb_values :: "int option"

definition HgtValueIterator_init :: "hgt_parser \<Rightarrow> value_iterator" where
  "HgtValueIterator_init p = \<lparr>parser = p, nb_values = None\<rparr>"

text \<open>\<^verbatim>\<open>HgtParser.get_value_iterator\<close>.\<close>

definition get_value_iterator :: "hgt_parser \<Rightarrow> value_iterator" where
  "get_value_iterator p = HgtValueIterator_init p"

text \<open>
  The loop of \<^verbatim>\<open>_execute_import\<close> over \<^verbatim>\<open>HgtValueIterator.__iter__\<close>,
  from index \<open>idx\<close> on, with the samples inserted so far. The generator reads the value
  (which may raise) and yields; the loop body then tests the stop event (\<open>stp idx\<close> is
  its answer at sample \<open>idx\<close>), hands the sample to \<^verbatim>\<open>manager.insert_data\<close>,
  and divides by \<^verbatim>\<open>total\<close> for the progress message. The manager is the list of
  samples it has received.
\<close>

function import_from ::
    "hgt_parser \<Rightarrow> int \<Rightarrow> (nat \<Rightarrow> bool) \<Rightarrow> nat \<Rightarrow> hgt_sample list
       \<Rightarrow> completion \<times> hgt_sample list" where
  "import_from p total' stp idx inserted =
     (if idx < sample_lat p * sample_lng p then
        (case get_value p idx of
           Inl err \<Rightarrow> (Some err, inserted)
         | Inr v \<Rightarrow>
             if stp idx then (None, inserted)
             else
               (let inserted' = inserted @ [hgt_yield p idx v] in
                if total' = 0 then (Some ZeroDivisionError, inserted')
                else import_from p total' stp (idx + 1) inserted'))
      else (None, inserted))"
  by pat_completeness auto
termination
  by (relation "measure (\<lambda>(p, total', stp, idx, inserted).
                   sample_lat p * sample_lng p - idx)") auto

declare import_from.simps [simp del]

text \<open>
  \<^verbatim>\<open>_execute_import\<close>: its first statement is
  \<^verbatim>\<open>total = elev_iter.nb_values\<close>, which raises \<^verbatim>\<open>AttributeError\<close> on an
  iterator without the attribute, before the loop and so before any insert.
\<close>

definition execute_import ::
    "value_iterator \<Rightarrow> (nat \<Rightarrow> bool) \<Rightarrow> completion \<times> hgt_sample list" where
  "execute_import it stp =
     (case nb_values it of
        None \<Rightarrow> (Some AttributeError, [])
      | Some total' \<Rightarrow> import_from (parser it) total' stp 0 [])"

section \<open>The worker pool\<close>

subsection \<open>\<^verbatim>\<open>SafeCounter\<close>\<close>

record safe_counter =
  counter :: int
  cmax :: int
  incr :: int

text \<open>The pool builds its counter as \<^verbatim>\<open>SafeCounter()\<close>: start 0, max 0, step 1.\<close>

definition SafeCounter_init :: safe_counter where
  "SafeCounter_init = \<lparr>counter = 0, cmax = 0, incr = 1\<rparr>"

text \<open>\<^verbatim>\<open>increment\<close> runs under the lock: one step that adds and returns the new
  value with \<^verbatim>\<open>max\<close>.\<close>

definition increment :: "safe_counter \<Rightarrow> (int \<times> int) \<times> safe_counter" where
  "increment c =
     (let c' = c\<lparr>counter := counter c + incr c\<rparr> in ((counter c', cmax c'), c'))"

subsection \<open>Threads, the caller and the shared state\<close>

text \<open>
  Where a worker thread stands in \<^verbatim>\<open>Worker.run\<close> and \<^verbatim>\<open>_get_queue\<close>. Every
  call on the shared queue, counter and event is one atomic step, because each takes the
  object's own lock; nothing else is atomic, so the two halves of the loop test
  (\<^verbatim>\<open>queue.empty()\<close>, then \<^verbatim>\<open>stop_event.is_set()\<close>) and the
  \<^verbatim>\<open>queue.get()\<close> that follows are three steps.
\<close>

datatype 'a thread =
    NotStarted
  | LoopTop
  | TestStop
  | Get
  | Incr 'a
  | Process 'a "int \<times> int"
  | TaskDone
  | SetStop
  | Stopped
  | Killed

text \<open>\<^verbatim>\<open>Thread.isAlive()\<close>: started and not yet finished. A thread finishes when
  \<^verbatim>\<open>run\<close> returns (\<open>Stopped\<close>) or when an exception leaves it (\<open>Killed\<close>).\<close>

fun isAlive :: "'a thread \<Rightarrow> bool" where
  "isAlive NotStarted = False"
| "isAlive Stopped = False"
| "isAlive Killed = False"
| "isAlive _ = True"

text \<open>How \<^verbatim>\<open>start()\<close> ends, and where the calling thread stands in it.\<close>

datatype outcome = Returned | WorkerPoolException | KeyboardInterrupt

datatype caller_pc =
    Starting nat
  | Waiting
  | AfterWait
  | InterruptWaiting
  | Finished outcome

text \<open>
  The record of what happened, newest first: a worker took an item from the queue, a
  worker's \<^verbatim>\<open>process\<close> ended on an item, the stop event was set, a
  \<^verbatim>\<open>KeyboardInterrupt\<close> reached the running \<^verbatim>\<open>start()\<close>. The program
  never reads it.
\<close>

datatype 'a obs =
    Dequeued nat 'a
  | Processed nat 'a completion
  | SignalSet
  | InterruptRaised

record 'a pool =
  queue :: "'a list"
  pool_counter :: safe_counter
  stop_event :: bool
  workers :: "'a thread list"
  caller :: caller_pc
  history :: "'a obs list"

text \<open>\<^verbatim>\<open>WorkerPool.__init__\<close> with \<^verbatim>\<open>size\<close> \<open>n\<close>: \<open>n\<close> workers, none started (worker \<open>i\<close> of the
  list has id \<open>i + 1\<close>). There is no test on \<^verbatim>\<open>size\<close>.\<close>

definition WorkerPool_init :: "nat \<Rightarrow> 'a pool" where
  "WorkerPool_init n =
     \<lparr>queue = [], pool_counter = SafeCounter_init, stop_event = False,
      workers = replicate n NotStarted, caller = Starting 0, history = []\<rparr>"

text \<open>\<^verbatim>\<open>WorkerPool.fill\<close> on a list (a dict contributes its values in the order
  of its keys): every item is put on the queue, then \<^verbatim>\<open>counter.max\<close> is set.\<close>

definition fill :: "'a list \<Rightarrow> 'a pool \<Rightarrow> 'a pool" where
  "fill iterable s =
     s\<lparr>queue := queue s @ iterable,
       pool_counter := (pool_counter s)\<lparr>cmax := int (length iterable)\<rparr>\<rparr>"

subsection \<open>Steps\<close>

text \<open>
  One step of the thread that called \<^verbatim>\<open>start()\<close>: the loop that starts the
  workers, the polling loop of \<^verbatim>\<open>_wait\<close> (a worker once dead stays dead, so
  reading all of them in one step loses nothing), and the final test of the stop event.
\<close>

definition caller_step :: "'a pool \<Rightarrow> 'a pool" where
  "caller_step s =
     (case caller s of
        Starting k \<Rightarrow>
          if k < length (workers s)
          then s\<lparr>workers := (workers s)[k := LoopTop], caller := Starting (Suc k)\<rparr>
          else s\<lparr>caller := Waiting\<rparr>
      | Waiting \<Rightarrow>
          if list_ex isAlive (workers s) then s else s\<lparr>caller := AfterWait\<rparr>
      | AfterWait \<Rightarrow>
          if stop_event s then s\<lparr>caller := Finished WorkerPoolException\<rparr>
          else s\<lparr>caller := Finished Returned\<rparr>
      | InterruptWaiting \<Rightarrow>
          if list_ex isAlive (workers s) then s
          else s\<lparr>caller := Finished KeyboardInterrupt\<rparr>
      | Finished r \<Rightarrow> s)"

text \<open>
  A \<^verbatim>\<open>KeyboardInterrupt\<close> in the calling thread. Inside the \<^verbatim>\<open>try\<close> it is
  caught: the event is set and \<^verbatim>\<open>_wait\<close> runs again before the
  \<^verbatim>\<open>raise\<close>. In the handler itself, or after the \<^verbatim>\<open>try\<close>, it leaves
  \<^verbatim>\<open>start()\<close> at once.
\<close>

definition interrupt_step :: "'a pool \<Rightarrow> 'a pool" where
  "interrupt_step s =
     (case caller s of
        Starting k \<Rightarrow>
          s\<lparr>stop_event := True, caller := InterruptWaiting,
            history := SignalSet # InterruptRaised # history s\<rparr>
      | Waiting \<Rightarrow>
          s\<lparr>stop_event := True, caller := InterruptWaiting,
            history := SignalSet # InterruptRaised # history s\<rparr>
      | AfterWait \<Rightarrow>
          s\<lparr>caller := Finished KeyboardInterrupt, history := InterruptRaised # history s\<rparr>
      | InterruptWaiting \<Rightarrow>
          s\<lparr>caller := Finished KeyboardInterrupt, history := InterruptRaised # history s\<rparr>
      | Finished r \<Rightarrow> s)"

text \<open>
  One step of worker \<open>i\<close>. \<open>oc\<close> is how \<^verbatim>\<open>process\<close> ends if this step is the call
  of the handler: it returns; or it raises an \<^verbatim>\<open>Exception\<close>, which the clause
  \<^verbatim>\<open>except Exception\<close> of \<^verbatim>\<open>_get_queue\<close> catches, to set the stop
  event; or it raises something else, which no clause catches: the exception leaves
  \<^verbatim>\<open>_get_queue\<close> and \<^verbatim>\<open>run\<close>, and the thread ends with the stop event
  untouched. \<^verbatim>\<open>queue.get()\<close> has no timeout: on an empty queue the thread stays
  where it is.
\<close>

definition worker_step :: "nat \<Rightarrow> completion \<Rightarrow> 'a pool \<Rightarrow> 'a pool" where
  "worker_step i oc s =
     (if i < length (workers s) then
        (case workers s ! i of
           NotStarted \<Rightarrow> s
         | LoopTop \<Rightarrow>
             if queue s = [] then s\<lparr>workers := (workers s)[i := Stopped]\<rparr>
             else s\<lparr>workers := (workers s)[i := TestStop]\<rparr>
         | TestStop \<Rightarrow>
             if stop_event s then s\<lparr>workers := (workers s)[i := Stopped]\<rparr>
             else s\<lparr>workers := (workers s)[i := Get]\<rparr>
         | Get \<Rightarrow>
             (case queue s of
                [] \<Rightarrow> s
              | x # q \<Rightarrow>
                  s\<lparr>queue := q, workers := (workers s)[i := Incr x],
                    history := Dequeued i x # history s\<rparr>)
         | Incr x \<Rightarrow>
             (case increment (pool_counter s) of
                (info, c) \<Rightarrow>
                  s\<lparr>pool_counter := c, workers := (workers s)[i := Process x info]\<rparr>)
         | Process x info \<Rightarrow>
             s\<lparr>workers := (workers s)
                 [i := (case oc of
                          None \<Rightarrow> TaskDone
                        | Some err \<Rightarrow> if is_Exception err then SetStop else Killed)],
               history := Processed i x oc # history s\<rparr>
         | TaskDone \<Rightarrow> s\<lparr>workers := (workers s)[i := LoopTop]\<rparr>
         | SetStop \<Rightarrow>
             s\<lparr>stop_event := True, workers := (workers s)[i := LoopTop],
               history := SignalSet # history s\<rparr>
         | Stopped \<Rightarrow> s
         | Killed \<Rightarrow> s)
      else s)"

text \<open>A schedule says which thread moves next; a run follows a schedule.\<close>

datatype event = CallerStep | InterruptEvent | WorkerStep nat completion

fun step :: "event \<Rightarrow> 'a pool \<Rightarrow> 'a pool" where
  "step CallerStep s = caller_step s"
| "step InterruptEvent s = interrupt_step s"
| "step (WorkerStep i oc) s = worker_step i oc s"

definition run :: "event list \<Rightarrow> 'a pool \<Rightarrow> 'a pool" where
  "run sch s = foldl (\<lambda>s ev. step ev s) s sch"

text \<open>The pool as \<^verbatim>\<open>start()\<close> finds it: built with \<open>n\<close> workers and filled
  once.\<close>

definition filled_pool :: "nat \<Rightarrow> 'a list \<Rightarrow> 'a pool" where
  "filled_pool n items = fill items (WorkerPool_init n)"

subsection \<open>Reading the history\<close>

fun dequeued :: "'a obs list \<Rightarrow> (nat \<times> 'a) list" where
  "dequeued [] = []"
| "dequeued (Dequeued i x # h) = (i, x) # dequeued h"
| "dequeued (_ # h) = dequeued h"

fun processed :: "'a obs list \<Rightarrow> (nat \<times> 'a) list" where
  "processed [] = []"
| "processed (Processed i x oc # h) = (i, x) # processed h"
| "processed (_ # h) = processed h"

text \<open>The calls of \<^verbatim>\<open>process\<close> that raised an \<^verbatim>\<open>Exception\<close> (caught by
  \<^verbatim>\<open>_get_queue\<close>), and those that raised anything else (which killed the
  thread).\<close>

fun failures :: "'a obs list \<Rightarrow> (nat \<times> 'a \<times> exn) list" where
  "failures [] = []"
| "failures (Processed i x oc # h) =
     (case oc of
        None \<Rightarrow> failures h
      | Some err \<Rightarrow> if is_Exception err then (i, x, err) # failures h else failures h)"
| "failures (_ # h) = failures h"

fun killed :: "'a obs list \<Rightarrow> (nat \<times> 'a \<times> exn) list" where
  "killed [] = []"
| "killed (Processed i x oc # h) =
     (case oc of
        None \<Rightarrow> killed h
      | Some err \<Rightarrow> if is_Exception err then killed h else (i, x, err) # killed h)"
| "killed (_ # h) = killed h"

text \<open>The items worker \<open>i\<close> took from the queue.\<close>

fun taken :: "nat \<Rightarrow> 'a obs list \<Rightarrow> 'a list" where
  "taken i [] = []"
| "taken i (Dequeued j x # h) = (if j = i then x # taken i h else taken i h)"
| "taken i (_ # h) = taken i h"

text \<open>The items worker \<open>i\<close> took from the queue when the stop event had already been
  set (the history is newest first, so the earlier events are the tail).\<close>

fun late_dequeues :: "nat \<Rightarrow> 'a obs list \<Rightarrow> 'a list" where
  "late_dequeues i [] = []"
| "late_dequeues i (Dequeued j x # h) =
     (if j = i \<and> SignalSet \<in> set h then x # late_dequeues i h else late_dequeues i h)"
| "late_dequeues i (_ # h) = late_dequeues i h"

subsection \<open>Invariants of a run\<close>

text \<open>The item a worker holds between taking it and the end of \<^verbatim>\<open>process\<close>; the
  increment a worker owes after taking an item; a worker about to set the stop event; a
  worker killed by its handler.\<close>

fun held :: "'a thread \<Rightarrow> 'a multiset" where
  "held (Incr x) = {#x#}"
| "held (Process x info) = {#x#}"
| "held _ = {#}"

fun owes :: "'a thread \<Rightarrow> nat" where
  "owes (Incr x) = 1"
| "owes _ = 0"

fun raising :: "'a thread \<Rightarrow> nat" where
  "raising SetStop = 1"
| "raising _ = 0"

fun dead :: "'a thread \<Rightarrow> nat" where
  "dead Killed = 1"
| "dead _ = 0"

text \<open>The fixed parts of the pool, and the stop event against the history.\<close>

definition inv_basic :: "nat \<Rightarrow> 'a list \<Rightarrow> 'a pool \<Rightarrow> bool" where
  "inv_basic n its s \<longleftrightarrow>
     length (workers s) = n \<and> cmax (pool_counter s) = int (length its)
     \<and> incr (pool_counter s) = 1
     \<and> (stop_event s \<longleftrightarrow> SignalSet \<in> set (history s))"

text \<open>What the position of the caller says about the workers: the workers are started
  in order, \<^verbatim>\<open>_wait\<close> ends only when all of them have ended, and the history holds
  an interrupt exactly when the caller is on the interrupt path.\<close>

definition inv_caller :: "'a pool \<Rightarrow> bool" where
  "inv_caller s \<longleftrightarrow>
     (\<forall>k. caller s = Starting k \<longrightarrow>
          k \<le> length (workers s)
          \<and> (\<forall>i<length (workers s). (workers s ! i = NotStarted) = (k \<le> i)))
   \<and> (caller s = Waiting \<longrightarrow> (\<forall>i<length (workers s). workers s ! i \<noteq> NotStarted))
   \<and> (caller s = AfterWait \<or> caller s = Finished Returned
        \<or> caller s = Finished WorkerPoolException \<longrightarrow>
          (\<forall>i<length (workers s). workers s ! i = Stopped \<or> workers s ! i = Killed))
   \<and> (caller s = Finished Returned \<longrightarrow> \<not> stop_event s)
   \<and> (caller s = Finished WorkerPoolException \<longrightarrow> stop_event s)
   \<and> (InterruptRaised \<in> set (history s) \<longleftrightarrow>
          caller s = InterruptWaiting \<or> caller s = Finished KeyboardInterrupt)"

text \<open>Every item put on the queue is on the queue, in the hands of a worker, or
  processed; and it is on the queue or was taken from it.\<close>

definition inv_items :: "'a list \<Rightarrow> 'a pool \<Rightarrow> bool" where
  "inv_items its s \<longleftrightarrow>
     mset its = mset (queue s) + sum_list (map held (workers s))
                + mset (map snd (processed (history s)))"

definition inv_dequeued :: "'a list \<Rightarrow> 'a pool \<Rightarrow> bool" where
  "inv_dequeued its s \<longleftrightarrow>
     mset its = mset (queue s) + mset (map snd (dequeued (history s)))"

text \<open>The counter, the items still queued and the increments owed add up to the item
  count.\<close>

definition inv_counter :: "'a list \<Rightarrow> 'a pool \<Rightarrow> bool" where
  "inv_counter its s \<longleftrightarrow>
     counter (pool_counter s) + int (length (queue s)) + int (sum_list (map owes (workers s)))
       = int (length its)"

text \<open>A worker leaves its loop only on an empty queue or a set event, and neither is
  undone.\<close>

definition inv_stopped :: "'a pool \<Rightarrow> bool" where
  "inv_stopped s \<longleftrightarrow>
     (\<forall>i<length (workers s). workers s ! i = Stopped \<longrightarrow> queue s = [] \<or> stop_event s)"

text \<open>A failed \<^verbatim>\<open>process\<close> sets the event, and the event is set only by a failure
  or an interrupt.\<close>

definition inv_fail :: "'a pool \<Rightarrow> bool" where
  "inv_fail s \<longleftrightarrow>
     (failures (history s) \<noteq> [] \<longrightarrow>
        stop_event s \<or> 0 < sum_list (map raising (workers s)))
   \<and> (stop_event s \<longrightarrow> InterruptRaised \<in> set (history s) \<or> failures (history s) \<noteq> [])
   \<and> (\<forall>i<length (workers s). workers s ! i = SetStop \<longrightarrow> failures (history s) \<noteq> [])"

text \<open>The killed workers are as many as the handler calls that ended outside
  \<^verbatim>\<open>Exception\<close>.\<close>

definition inv_killed :: "'a pool \<Rightarrow> bool" where
  "inv_killed s \<longleftrightarrow>
     sum_list (map dead (workers s)) = length (killed (history s))"

text \<open>A worker that took an item after the event was set does not come back to
  \<^verbatim>\<open>queue.get()\<close>.\<close>

definition inv_late :: "'a pool \<Rightarrow> bool" where
  "inv_late s \<longleftrightarrow>
     (\<forall>i. late_dequeues i (history s) = []
        \<or> (length (late_dequeues i (history s)) = 1 \<and> i < length (workers s)
            \<and> workers s ! i \<noteq> Get \<and> workers s ! i \<noteq> NotStarted))"

definition pool_inv :: "nat \<Rightarrow> 'a list \<Rightarrow> 'a pool \<Rightarrow> bool" where
  "pool_inv n its s \<longleftrightarrow>
     inv_basic n its s \<and> inv_caller s \<and> inv_items its s \<and> inv_dequeued its s
     \<and> inv_counter its s \<and> inv_stopped s \<and> inv_fail s \<and> inv_killed s \<and> inv_late s"

subsection \<open>Schedules\<close>

text \<open>Two workers, one item: both workers pass the loop test before either takes the
  item; worker 0 takes it, worker 1 calls \<^verbatim>\<open>queue.get()\<close> on the empty queue.\<close>

definition race_schedule :: "event list" where
  "race_schedule =
     [CallerStep, CallerStep, CallerStep,
      WorkerStep 0 None, WorkerStep 0 None, WorkerStep 1 None, WorkerStep 1 None,
      WorkerStep 0 None, WorkerStep 1 None]"

text \<open>Two workers, two items: worker 1 passes the loop test, the handler of worker 0
  fails and the event is set, then worker 1 takes and processes the second item.\<close>

definition late_schedule :: "event list" where
  "late_schedule =
     [CallerStep, CallerStep, CallerStep,
      WorkerStep 0 None, WorkerStep 0 None, WorkerStep 0 None, WorkerStep 0 None,
      WorkerStep 1 None, WorkerStep 1 None,
      WorkerStep 0 (Some OtherException), WorkerStep 0 None,
      WorkerStep 1 None, WorkerStep 1 None, WorkerStep 1 None]"

text \<open>Two workers, two items, one item each, no failure.\<close>

definition clean_schedule :: "event list" where
  "clean_schedule =
     [CallerStep, CallerStep, CallerStep,
      WorkerStep 0 None, WorkerStep 0 None, WorkerStep 0 None, WorkerStep 0 None,
      WorkerStep 1 None, WorkerStep 1 None, WorkerStep 1 None, WorkerStep 1 None,
      WorkerStep 0 None, WorkerStep 0 None, WorkerStep 0 None,
      WorkerStep 1 None, WorkerStep 1 None, WorkerStep 1 None,
      CallerStep, CallerStep]"

text \<open>Two workers, two items, both handlers fail.\<close>

definition failing_schedule :: "event list" where
  "failing_schedule =
     [CallerStep, CallerStep, CallerStep,
      WorkerStep 0 None, WorkerStep 0 None, WorkerStep 0 None, WorkerStep 0 None,
      WorkerStep 1 None, WorkerStep 1 None, WorkerStep 1 None, WorkerStep 1 None,
      WorkerStep 0 (Some OtherException), WorkerStep 1 (Some IOError),
      WorkerStep 0 None, WorkerStep 1 None, WorkerStep 0 None, WorkerStep 1 None,
      CallerStep, CallerStep]"

text \<open>An interrupt while the workers are being started.\<close>

definition interrupted_schedule :: "event list" where
  "interrupted_schedule =
     [CallerStep, InterruptEvent, WorkerStep 0 None, WorkerStep 0 None, CallerStep]"

text \<open>One worker, two items: the handler ends the first item with
  \<^verbatim>\<open>SystemExit\<close>, the thread dies, and the caller finds no worker alive.\<close>

definition killed_schedule :: "event list" where
  "killed_schedule =
     [CallerStep, CallerStep,
      WorkerStep 0 None, WorkerStep 0 None, WorkerStep 0 None, WorkerStep 0 None,
      WorkerStep 0 (Some SystemExit),
      CallerStep, CallerStep]"

text \<open>The first eleven steps of \<open>late_schedule\<close>: the event has just been set by worker 0,
  which is back at the top of its loop.\<close>

definition signalled_schedule :: "event list" where
  "signalled_schedule =
     [CallerStep, CallerStep, CallerStep,
      WorkerStep 0 None, WorkerStep 0 None, WorkerStep 0 None, WorkerStep 0 None,
      WorkerStep 1 None, WorkerStep 1 None,
      WorkerStep 0 (Some OtherException), WorkerStep 0 None]"

section \<open>Sample inputs\<close>

definition sample_env :: env where
  "sample_env =
     \<lparr>path_join = (\<lambda>a b. a @ ''/'' @ b),
      md5hex = (\<lambda>d. if d = [1, 2] then ''aa'' else ''bb''),
      is_zip = (\<lambda>d. d \<noteq> []),
      testzip = (\<lambda>d. if d = [9] then Some ''N00E010.hgt''
                     else if d = [7] then Some []
                     else None),
      urlopen = (\<lambda>u n. if u = ''http://down'' then Inl URLError
                      else if u = ''gopher://odd'' then Inl OtherException
                      else if u = ''http://once''
                        then (if n = 0 then Inl HTTPError else Inl IOError)
                      else if u = ''http://twice''
                        then (if n < 2 then Inl URLError else Inl OtherException)
                      else Inr [[3], [4]]),
      stop_seen = (\<lambda>n j. False)\<rparr>"

definition sample_world :: world where
  "sample_world =
     \<lparr>fs = [''dir/a.zip'' \<mapsto> [1, 2], ''dir/b.zip'' \<mapsto> [9], ''dir/u.zip'' \<mapsto> [7]],
      requests = []\<rparr>"

text \<open>A grid of 2 by 2 samples: \<open>10\<close>, \<open>-32768\<close>, \<open>20\<close>, \<open>5\<close>.\<close>

definition sample_parser :: hgt_parser where
  "sample_parser =
     \<lparr>sample_lat = 2, sample_lng = 2, file_bytes = [0, 10, 128, 0, 0, 20, 0, 5]\<rparr>"

section \<open>Properties of the download stage\<close>

lemma download_file_request:
  "download_file self e u f m w = (Some err, w') \<Longrightarrow> requests w' = requests w @ [u]"
  by (auto simp: download_file_def Let_def split: if_splits sum.splits)

lemma sec_ok:
  "attempt \<le> max_attempt self \<Longrightarrow> download_file self e u f m w = (None, w') \<Longrightarrow>
   secured_download_file self e u f m attempt exc w = (None, w')"
  by (subst secured_download_file.simps) simp

lemma sec_retry:
  "attempt \<le> max_attempt self \<Longrightarrow> download_file self e u f m w = (Some err, w') \<Longrightarrow>
   retried err \<Longrightarrow>
   secured_download_file self e u f m attempt exc w
     = secured_download_file self e u f m (attempt + 1) err w'"
  by (subst secured_download_file.simps) simp

lemma sec_raise:
  "attempt \<le> max_attempt self \<Longrightarrow> download_file self e u f m w = (Some err, w') \<Longrightarrow>
   \<not> retried err \<Longrightarrow>
   secured_download_file self e u f m attempt exc w = (Some err, w')"
  by (subst secured_download_file.simps) simp

lemma sec_give_up:
  "max_attempt self < attempt \<Longrightarrow>
   secured_download_file self e u f m attempt exc w = (Some exc, w)"
  by (subst secured_download_file.simps) simp

lemma retried_iff:
  "retried x \<longleftrightarrow> x \<in> {InvalidCheckSumException, BadZipfile, URLError, HTTPError}"
  by (cases x) auto

text \<open>
  What \<^verbatim>\<open>_validate_downloaded_file\<close> does, case by case. Without a checksum
  (\<^verbatim>\<open>None\<close> or the empty string, which the test \<^verbatim>\<open>if md5sum\<close> treats alike)
  it is the archive check alone. With a checksum, a file whose hash differs raises
  \<^verbatim>\<open>InvalidCheckSumException\<close>. A file that passes the checksum step (or has none
  to pass) raises \<^verbatim>\<open>BadZipfile\<close> when \<^verbatim>\<open>testzip()\<close> names a corrupt member
  by a non-empty string.
\<close>

lemma validation_cases:
  "(\<not> truthy md5sum \<longrightarrow>
      validate_downloaded_file e w p md5sum = check_zip e w p)
   \<and> (truthy md5sum \<and> fs w p = Some data \<and> md5sum \<noteq> Some (md5hex e data) \<longrightarrow>
      validate_downloaded_file e w p md5sum = Some InvalidCheckSumException)
   \<and> (fs w p = Some data \<and> (truthy md5sum \<longrightarrow> md5sum = Some (md5hex e data))
        \<and> is_zip e data \<and> testzip e data = Some name \<and> name \<noteq> [] \<longrightarrow>
      validate_downloaded_file e w p md5sum = Some BadZipfile)"
  by (auto simp: validate_downloaded_file_def check_zip_def)

text \<open>
  Claim C8, at the input where the code departs from it. The file \<^verbatim>\<open>dir/u.zip\<close> is
  an archive whose first member with a bad CRC has the empty name: \<^verbatim>\<open>testzip()\<close>
  returns \<^verbatim>\<open>''\<close>, the test \<^verbatim>\<open>if zip_fd.testzip()\<close> takes the empty string
  for false, and the validation returns normally, with no checksum and with the matching
  one; \<^verbatim>\<open>_file_exists\<close> then takes the corrupt file for a finished download.
\<close>

theorem validation_accepts_unnamed_bad_member:
  "fs sample_world ''dir/u.zip'' = Some [7]
   \<and> is_zip sample_env [7]
   \<and> testzip sample_env [7] = Some []
   \<and> validate_downloaded_file sample_env sample_world ''dir/u.zip'' None = None
   \<and> validate_downloaded_file sample_env sample_world ''dir/u.zip'' (Some ''bb'') = None
   \<and> file_exists sample_env sample_world ''dir/u.zip'' None"
  by (simp add: sample_env_def sample_world_def validate_downloaded_file_def check_zip_def
      file_exists_def)

text \<open>
  Claim C7. When the destination file exists and \<^verbatim>\<open>_validate_downloaded_file\<close>
  accepts it with the item's checksum, \<^verbatim>\<open>process\<close> returns normally and leaves the
  world as it was: no request is sent and no file is written.
\<close>

theorem download_skips_valid_file:
  assumes "fs w (path_join e fld (zip_name item)) \<noteq> None"
      and "validate_downloaded_file e w (path_join e fld (zip_name item)) (md5 item) = None"
  shows "DownloadWorker_process (DownloadWorker_init fld) e item w = (None, w)"
proof -
  have "download_file (DownloadWorker_init fld) e (url item) (zip_name item) (md5 item) w = (None, w)"
    using assms by (auto simp: download_file_def file_exists_def DownloadWorker_init_def Let_def)
  then show ?thesis
    unfolding DownloadWorker_process_def
    by (rule sec_ok [rotated]) (simp add: DownloadWorker_init_def)
qed

theorem download_skips_valid_file_witness:
  "DownloadWorker_process (DownloadWorker_init ''dir'') sample_env
      \<lparr>url = ''http://down'', zip_name = ''a.zip'', md5 = Some ''aa''\<rparr> sample_world = (None, sample_world)"
  using download_skips_valid_file [of sample_world sample_env "''dir''" "\<lparr>url = ''http://down'', zip_name = ''a.zip'', md5 = Some ''aa''\<rparr>"]
  by (simp add: sample_env_def sample_world_def validate_downloaded_file_def check_zip_def)

text \<open>
  Claim C4. With the worker as its constructor builds it (\<^verbatim>\<open>max_attempt = 3\<close>), and
  the calls of \<^verbatim>\<open>_download_file\<close> taken one after the other, each from the world
  the previous one left:
  \<^item> if the first three calls raise a checksum, archive, URL or HTTP error,
    \<^verbatim>\<open>process\<close> raises the third error from the world the third call left, after
    exactly three requests;
  \<^item> if the first call raises any other error, \<^verbatim>\<open>process\<close> raises it at once,
    after one request;
  \<^item> if the first call raises one of the four errors and the second any other error,
    \<^verbatim>\<open>process\<close> raises the second error, after two requests;
  \<^item> if the first two calls raise errors of the four and the third any other error,
    \<^verbatim>\<open>process\<close> raises the third error, after three requests.
\<close>

theorem secured_download_three_attempts:
  "(download_attempt fld e item w0 = (Some e1, w1)
      \<and> download_attempt fld e item w1 = (Some e2, w2)
      \<and> download_attempt fld e item w2 = (Some e3, w3)
      \<and> {e1, e2, e3} \<subseteq> {InvalidCheckSumException, BadZipfile, URLError, HTTPError}
    \<longrightarrow> DownloadWorker_process (DownloadWorker_init fld) e item w0 = (Some e3, w3)
        \<and> requests w3 = requests w0 @ [url item, url item, url item])
   \<and> (download_attempt fld e item w0 = (Some e1, w1)
      \<and> e1 \<notin> {InvalidCheckSumException, BadZipfile, URLError, HTTPError}
    \<longrightarrow> DownloadWorker_process (DownloadWorker_init fld) e item w0 = (Some e1, w1)
        \<and> requests w1 = requests w0 @ [url item])
   \<and> (download_attempt fld e item w0 = (Some e1, w1)
      \<and> e1 \<in> {InvalidCheckSumException, BadZipfile, URLError, HTTPError}
      \<and> download_attempt fld e item w1 = (Some e2, w2)
      \<and> e2 \<notin> {InvalidCheckSumException, BadZipfile, URLError, HTTPError}
    \<longrightarrow> DownloadWorker_process (DownloadWorker_init fld) e item w0 = (Some e2, w2)
        \<and> requests w2 = requests w0 @ [url item, url item])
   \<and> (download_attempt fld e item w0 = (Some e1, w1)
      \<and> download_attempt fld e item w1 = (Some e2, w2)
      \<and> {e1, e2} \<subseteq> {InvalidCheckSumException, BadZipfile, URLError, HTTPError}
      \<and> download_attempt fld e item w2 = (Some e3, w3)
      \<and> e3 \<notin> {InvalidCheckSumException, BadZipfile, URLError, HTTPError}
    \<longrightarrow> DownloadWorker_process (DownloadWorker_init fld) e item w0 = (Some e3, w3)
        \<and> requests w3 = requests w0 @ [url item, url item, url item])"
proof -
  let ?self = "DownloadWorker_init fld"
  let ?sec = "secured_download_file ?self e (url item) (zip_name item) (md5 item)"
  have mx: "max_attempt ?self = 3" by (simp add: DownloadWorker_init_def)
  have dl: "\<And>w. download_attempt fld e item w
      = download_file ?self e (url item) (zip_name item) (md5 item) w"
    by (simp add: download_attempt_def)
  have pr: "\<And>w. DownloadWorker_process ?self e item w = ?sec 1 OtherException w"
    by (simp add: DownloadWorker_process_def)
  have rq: "\<And>w err w'. download_attempt fld e item w = (Some err, w')
      \<Longrightarrow> requests w' = requests w @ [url item]"
    unfolding dl by (rule download_file_request)
  have step1: "?sec 1 exc w = ?sec (1 + 1) err w'"
    if "download_attempt fld e item w = (Some err, w')" "retried err" for exc w err w'
    using that unfolding dl by (intro sec_retry) (simp_all add: mx)
  have step2: "?sec (1 + 1) exc w = ?sec (1 + 1 + 1) err w'"
    if "download_attempt fld e item w = (Some err, w')" "retried err" for exc w err w'
    using that unfolding dl by (intro sec_retry) (simp_all add: mx)
  have step3: "?sec (1 + 1 + 1) exc w = ?sec (1 + 1 + 1 + 1) err w'"
    if "download_attempt fld e item w = (Some err, w')" "retried err" for exc w err w'
    using that unfolding dl by (intro sec_retry) (simp_all add: mx)
  have stop1: "?sec 1 exc w = (Some err, w')"
    if "download_attempt fld e item w = (Some err, w')" "\<not> retried err" for exc w err w'
    using that unfolding dl by (intro sec_raise) (simp_all add: mx)
  have stop2: "?sec (1 + 1) exc w = (Some err, w')"
    if "download_attempt fld e item w = (Some err, w')" "\<not> retried err" for exc w err w'
    using that unfolding dl by (intro sec_raise) (simp_all add: mx)
  have stop3: "?sec (1 + 1 + 1) exc w = (Some err, w')"
    if "download_attempt fld e item w = (Some err, w')" "\<not> retried err" for exc w err w'
    using that unfolding dl by (intro sec_raise) (simp_all add: mx)
  have stop4: "?sec (1 + 1 + 1 + 1) exc w = (Some exc, w)" for exc w
    by (rule sec_give_up) (simp add: mx)
  have c1: "DownloadWorker_process ?self e item w0 = (Some e3, w3)
      \<and> requests w3 = requests w0 @ [url item, url item, url item]"
    if a: "download_attempt fld e item w0 = (Some e1, w1)"
      "download_attempt fld e item w1 = (Some e2, w2)"
      "download_attempt fld e item w2 = (Some e3, w3)"
      and r: "retried e1" "retried e2" "retried e3"
    using step1 [OF a(1) r(1), of OtherException] step2 [OF a(2) r(2), of e1]
      step3 [OF a(3) r(3), of e2] stop4 [of e3 w3] rq [OF a(1)] rq [OF a(2)] rq [OF a(3)]
    by (simp add: pr)
  have c2: "DownloadWorker_process ?self e item w0 = (Some e1, w1)
      \<and> requests w1 = requests w0 @ [url item]"
    if a: "download_attempt fld e item w0 = (Some e1, w1)" and r: "\<not> retried e1"
    using stop1 [OF a r, of OtherException] rq [OF a] by (simp add: pr)
  have c3: "DownloadWorker_process ?self e item w0 = (Some e2, w2)
      \<and> requests w2 = requests w0 @ [url item, url item]"
    if a: "download_attempt fld e item w0 = (Some e1, w1)"
      "download_attempt fld e item w1 = (Some e2, w2)"
      and r: "retried e1" "\<not> retried e2"
    using step1 [OF a(1) r(1), of OtherException] stop2 [OF a(2) r(2), of e1]
      rq [OF a(1)] rq [OF a(2)]
    by (simp add: pr)
  have c4: "DownloadWorker_process ?self e item w0 = (Some e3, w3)
      \<and> requests w3 = requests w0 @ [url item, url item, url item]"
    if a: "download_attempt fld e item w0 = (Some e1, w1)"
      "download_attempt fld e item w1 = (Some e2, w2)"
      "download_attempt fld e item w2 = (Some e3, w3)"
      and r: "retried e1" "retried e2" "\<not> retried e3"
    using step1 [OF a(1) r(1), of OtherException] step2 [OF a(2) r(2), of e1]
      stop3 [OF a(3) r(3), of e2] rq [OF a(1)] rq [OF a(2)] rq [OF a(3)]
    by (simp add: pr)
  show ?thesis
  proof (intro conjI impI)
    assume "download_attempt fld e item w0 = (Some e1, w1)
      \<and> download_attempt fld e item w1 = (Some e2, w2)
      \<and> download_attempt fld e item w2 = (Some e3, w3)
      \<and> {e1, e2, e3} \<subseteq> {InvalidCheckSumException, BadZipfile, URLError, HTTPError}"
    then have "DownloadWorker_process ?self e item w0 = (Some e3, w3)
      \<and> requests w3 = requests w0 @ [url item, url item, url item]"
      by (intro c1) (simp_all add: retried_iff)
    then show "DownloadWorker_process ?self e item w0 = (Some e3, w3)"
      and "requests w3 = requests w0 @ [url item, url item, url item]" by simp_all
  next
    assume "download_attempt fld e item w0 = (Some e1, w1)
      \<and> e1 \<notin> {InvalidCheckSumException, BadZipfile, URLError, HTTPError}"
    then have "DownloadWorker_process ?self e item w0 = (Some e1, w1)
      \<and> requests w1 = requests w0 @ [url item]"
      by (intro c2) (simp_all add: retried_iff)
    then show "DownloadWorker_process ?self e item w0 = (Some e1, w1)"
      and "requests w1 = requests w0 @ [url item]" by simp_all
  next
    assume "download_attempt fld e item w0 = (Some e1, w1)
      \<and> e1 \<in> {InvalidCheckSumException, BadZipfile, URLError, HTTPError}
      \<and> download_attempt fld e item w1 = (Some e2, w2)
      \<and> e2 \<notin> {InvalidCheckSumException, BadZipfile, URLError, HTTPError}"
    then have "DownloadWorker_process ?self e item w0 = (Some e2, w2)
      \<and> requests w2 = requests w0 @ [url item, url item]"
      by (intro c3) (simp_all add: retried_iff)
    then show "DownloadWorker_process ?self e item w0 = (Some e2, w2)"
      and "requests w2 = requests w0 @ [url item, url item]" by simp_all
  next
    assume "download_attempt fld e item w0 = (Some e1, w1)
      \<and> download_attempt fld e item w1 = (Some e2, w2)
      \<and> {e1, e2} \<subseteq> {InvalidCheckSumException, BadZipfile, URLError, HTTPError}
      \<and> download_attempt fld e item w2 = (Some e3, w3)
      \<and> e3 \<notin> {InvalidCheckSumException, BadZipfile, URLError, HTTPError}"
    then have "DownloadWorker_process ?self e item w0 = (Some e3, w3)
      \<and> requests w3 = requests w0 @ [url item, url item, url item]"
      by (intro c4) (simp_all add: retried_iff)
    then show "DownloadWorker_process ?self e item w0 = (Some e3, w3)"
      and "requests w3 = requests w0 @ [url item, url item, url item]" by simp_all
  qed
qed

theorem secured_download_three_attempts_witness:
  "fst (DownloadWorker_process (DownloadWorker_init ''dir'') sample_env
      \<lparr>url = ''http://ok'', zip_name = ''c.zip'', md5 = Some ''zz''\<rparr> sample_world)
     = Some InvalidCheckSumException
   \<and> requests (snd (DownloadWorker_process (DownloadWorker_init ''dir'') sample_env
      \<lparr>url = ''http://ok'', zip_name = ''c.zip'', md5 = Some ''zz''\<rparr> sample_world))
     = [''http://ok'', ''http://ok'', ''http://ok'']
   \<and> DownloadWorker_process (DownloadWorker_init ''dir'') sample_env
      \<lparr>url = ''gopher://odd'', zip_name = ''c.zip'', md5 = None\<rparr> sample_world
     = (Some OtherException, sample_world\<lparr>requests := [''gopher://odd'']\<rparr>)
   \<and> DownloadWorker_process (DownloadWorker_init ''dir'') sample_env
      \<lparr>url = ''http://once'', zip_name = ''c.zip'', md5 = None\<rparr> sample_world
     = (Some IOError, sample_world\<lparr>requests := [''http://once'', ''http://once'']\<rparr>)
   \<and> DownloadWorker_process (DownloadWorker_init ''dir'') sample_env
      \<lparr>url = ''http://twice'', zip_name = ''c.zip'', md5 = None\<rparr> sample_world
     = (Some OtherException,
        sample_world\<lparr>requests := [''http://twice'', ''http://twice'', ''http://twice'']\<rparr>)"
  using secured_download_three_attempts [of "''dir''" sample_env
              "\<lparr>url = ''http://ok'', zip_name = ''c.zip'', md5 = Some ''zz''\<rparr>"
              sample_world InvalidCheckSumException
              "\<lparr>fs = (fs sample_world)(''dir/c.zip'' \<mapsto> [3, 4]), requests = [''http://ok'']\<rparr>"
              InvalidCheckSumException
              "\<lparr>fs = (fs sample_world)(''dir/c.zip'' \<mapsto> [3, 4]),
                requests = [''http://ok'', ''http://ok'']\<rparr>"
              InvalidCheckSumException
              "\<lparr>fs = (fs sample_world)(''dir/c.zip'' \<mapsto> [3, 4]),
                requests = [''http://ok'', ''http://ok'', ''http://ok'']\<rparr>"]
        secured_download_three_attempts [of "''dir''" sample_env
              "\<lparr>url = ''gopher://odd'', zip_name = ''c.zip'', md5 = None\<rparr>"
              sample_world OtherException "sample_world\<lparr>requests := [''gopher://odd'']\<rparr>"]
        secured_download_three_attempts [of "''dir''" sample_env
              "\<lparr>url = ''http://once'', zip_name = ''c.zip'', md5 = None\<rparr>"
              sample_world HTTPError "sample_world\<lparr>requests := [''http://once'']\<rparr>"
              IOError "sample_world\<lparr>requests := [''http://once'', ''http://once'']\<rparr>"]
        secured_download_three_attempts [of "''dir''" sample_env
              "\<lparr>url = ''http://twice'', zip_name = ''c.zip'', md5 = None\<rparr>"
              sample_world URLError "sample_world\<lparr>requests := [''http://twice'']\<rparr>"
              URLError "sample_world\<lparr>requests := [''http://twice'', ''http://twice'']\<rparr>"
              OtherException
              "sample_world\<lparr>requests := [''http://twice'', ''http://twice'', ''http://twice'']\<rparr>"]
  by (simp add: download_attempt_def download_file_def file_exists_def
        validate_downloaded_file_def check_zip_def
        DownloadWorker_init_def sample_env_def sample_world_def)

section \<open>Properties of the import stage\<close>

text \<open>
  With an iterator that reports 4 values, the import of the sample grid ends normally and
  the manager has received four samples, with the elevations \<open>10\<close>, \<^verbatim>\<open>None\<close>,
  \<open>20\<close>, \<open>5\<close> in the order of the file.
\<close>

lemma import_with_reported_total:
  "execute_import ((get_value_iterator sample_parser)\<lparr>nb_values := Some 4\<rparr>) (\<lambda>i. False)
     = (None,
        [\<lparr>line = 1, col = 1, index = 0, elevation = Some 10\<rparr>,
         \<lparr>line = 1, col = 2, index = 1, elevation = None\<rparr>,
         \<lparr>line = 2, col = 1, index = 2, elevation = Some 20\<rparr>,
         \<lparr>line = 2, col = 2, index = 3, elevation = Some 5\<rparr>])"
  by code_simp


section \<open>Properties of the worker pool\<close>

subsection \<open>Steps keep the invariants\<close>

lemma run_Nil [simp]: "run [] s = s"
  by (simp add: run_def)

lemma run_snoc [simp]: "run (sch @ [ev]) s = step ev (run sch s)"
  by (simp add: run_def)

lemma sum_list_map_update:
  fixes f :: "'b \<Rightarrow> 'c::comm_monoid_add"
  shows "i < length ws \<Longrightarrow>
    sum_list (map f (ws[i := t])) + f (ws ! i) = sum_list (map f ws) + f t"
proof (induction ws arbitrary: i)
  case Nil
  then show ?case by simp
next
  case (Cons w ws)
  show ?case
  proof (cases i)
    case 0
    then show ?thesis by (simp add: ac_simps)
  next
    case (Suc j)
    then have "j < length ws" using Cons.prems by simp
    from Cons.IH [OF this] show ?thesis using Suc by (simp add: ac_simps)
  qed
qed

lemma inv_basic_step: "inv_basic n its s \<Longrightarrow> inv_basic n its (step ev s)"
  by (cases ev)
     (auto simp: inv_basic_def caller_step_def interrupt_step_def worker_step_def increment_def
        Let_def split: caller_pc.splits thread.splits list.splits)

lemma isAlive_iff: "isAlive t \<longleftrightarrow> t \<noteq> NotStarted \<and> t \<noteq> Stopped \<and> t \<noteq> Killed"
  by (cases t) auto

lemma none_alive:
  "\<not> list_ex isAlive ws \<Longrightarrow> i < length ws \<Longrightarrow>
   ws ! i = NotStarted \<or> ws ! i = Stopped \<or> ws ! i = Killed"
  by (auto simp: list_ex_iff isAlive_iff)

lemma process_cases:
  obtains (returned) "oc = None"
  | (caught) err where "oc = Some err" "is_Exception err"
  | (fatal) err where "oc = Some err" "\<not> is_Exception err"
  by (cases oc) auto

lemma worker_step_outside: "\<not> i < length (workers s) \<Longrightarrow> worker_step i oc s = s"
  by (simp add: worker_step_def)

lemma worker_step_idle:
  "workers s ! i = NotStarted \<or> workers s ! i = Stopped \<or> workers s ! i = Killed
   \<Longrightarrow> worker_step i oc s = s"
  by (auto simp: worker_step_def)

lemma worker_step_caller [simp]: "caller (worker_step i oc s) = caller s"
  by (cases "workers s ! i")
     (auto simp: worker_step_def increment_def split: list.splits)

lemma worker_step_length [simp]: "length (workers (worker_step i oc s)) = length (workers s)"
  by (cases "workers s ! i")
     (auto simp: worker_step_def increment_def split: list.splits)

lemma worker_step_interrupt [simp]:
  "InterruptRaised \<in> set (history (worker_step i oc s)) \<longleftrightarrow> InterruptRaised \<in> set (history s)"
  by (cases "workers s ! i")
     (auto simp: worker_step_def increment_def split: list.splits)

lemma worker_step_NotStarted [simp]:
  "j < length (workers s) \<Longrightarrow>
   workers (worker_step i oc s) ! j = NotStarted \<longleftrightarrow> workers s ! j = NotStarted"
  by (cases "workers s ! i")
     (auto simp: worker_step_def increment_def nth_list_update split: list.splits option.splits)

lemma inv_caller_step: "inv_caller s \<Longrightarrow> inv_caller (step ev s)"
proof (cases ev)
  case CallerStep
  assume "inv_caller s"
  then show ?thesis using CallerStep none_alive [of "workers s"]
    by (cases "caller s")
       (auto simp: inv_caller_def caller_step_def nth_list_update)
next
  case InterruptEvent
  assume "inv_caller s"
  then show ?thesis using InterruptEvent
    by (cases "caller s") (auto simp: inv_caller_def interrupt_step_def)
next
  case (WorkerStep i oc)
  assume a: "inv_caller s"
  show ?thesis
  proof (cases "\<forall>j<length (workers s). workers s ! j = Stopped \<or> workers s ! j = Killed")
    case True
    then have "worker_step i oc s = s"
      by (cases "i < length (workers s)") (auto simp: worker_step_idle worker_step_outside)
    then show ?thesis using a WorkerStep by simp
  next
    case False
    then show ?thesis using a WorkerStep
      by (auto simp: inv_caller_def)
  qed
qed


lemma sum_update_same:
  fixes f :: "'b \<Rightarrow> 'c::cancel_comm_monoid_add"
  shows "i < length ws \<Longrightarrow> f t = f (ws ! i) \<Longrightarrow>
    sum_list (map f (ws[i := t])) = sum_list (map f ws)"
  using sum_list_map_update [of i ws f t] by simp

lemma sum_update_take:
  fixes f :: "'b \<Rightarrow> 'c::cancel_comm_monoid_add"
  shows "i < length ws \<Longrightarrow> f (ws ! i) = 0 \<Longrightarrow>
    sum_list (map f (ws[i := t])) = sum_list (map f ws) + f t"
  using sum_list_map_update [of i ws f t] by simp

lemma sum_update_give:
  fixes f :: "'b \<Rightarrow> 'c::cancel_comm_monoid_add"
  shows "i < length ws \<Longrightarrow> f t = 0 \<Longrightarrow>
    sum_list (map f ws) = sum_list (map f (ws[i := t])) + f (ws ! i)"
  using sum_list_map_update [of i ws f t] by simp

lemma inv_items_step:
  assumes c: "inv_caller s" and a: "inv_items its s"
  shows "inv_items its (step ev s)"
proof (cases ev)
  case CallerStep
  show ?thesis
  proof (cases "caller s")
    case (Starting k)
    show ?thesis
    proof (cases "k < length (workers s)")
      case True
      then have "workers s ! k = NotStarted" using c Starting by (simp add: inv_caller_def)
      then have "sum_list (map held ((workers s)[k := LoopTop])) = sum_list (map held (workers s))"
        using True by (simp add: sum_update_same)
      then show ?thesis using a CallerStep Starting True
        by (simp add: inv_items_def caller_step_def)
    next
      case False
      then show ?thesis using a CallerStep Starting by (simp add: inv_items_def caller_step_def)
    qed
  qed (use a CallerStep in \<open>auto simp: inv_items_def caller_step_def\<close>)
next
  case InterruptEvent
  then show ?thesis using a
    by (cases "caller s") (auto simp: inv_items_def interrupt_step_def)
next
  case (WorkerStep i oc)
  show ?thesis
  proof (cases "i < length (workers s)")
    case False
    then show ?thesis using a WorkerStep by (simp add: worker_step_outside)
  next
    case True
    show ?thesis
    proof (cases "workers s ! i")
      case Get
      then show ?thesis using a WorkerStep True
        by (cases "queue s")
           (auto simp: inv_items_def worker_step_def sum_update_take)
    next
      case (Incr x)
      then show ?thesis using a WorkerStep True
        by (auto simp: inv_items_def worker_step_def increment_def sum_update_same)
    next
      case (Process x info)
      obtain t :: "'a thread" where t: "t = (case oc of None \<Rightarrow> TaskDone
          | Some err \<Rightarrow> if is_Exception err then SetStop else Killed)" by simp
      then have ht: "held t = {#}" by (cases oc rule: process_cases) simp_all
      have "sum_list (map held (workers s))
          = sum_list (map held ((workers s)[i := t])) + held (workers s ! i)"
        using True ht by (intro sum_update_give) simp_all
      then show ?thesis using a WorkerStep True Process t
        by (simp add: inv_items_def worker_step_def)
    qed (use a WorkerStep True in \<open>auto simp: inv_items_def worker_step_def sum_update_same\<close>)
  qed
qed

lemma inv_counter_step:
  assumes b: "inv_basic n its s" and c: "inv_caller s" and a: "inv_counter its s"
  shows "inv_counter its (step ev s)"
proof (cases ev)
  case CallerStep
  show ?thesis
  proof (cases "caller s")
    case (Starting k)
    show ?thesis
    proof (cases "k < length (workers s)")
      case True
      then have "workers s ! k = NotStarted" using c Starting by (simp add: inv_caller_def)
      then have "sum_list (map owes ((workers s)[k := LoopTop])) = sum_list (map owes (workers s))"
        using True by (simp add: sum_update_same)
      then show ?thesis using a CallerStep Starting True
        by (simp add: inv_counter_def caller_step_def)
    next
      case False
      then show ?thesis using a CallerStep Starting by (simp add: inv_counter_def caller_step_def)
    qed
  qed (use a CallerStep in \<open>auto simp: inv_counter_def caller_step_def\<close>)
next
  case InterruptEvent
  then show ?thesis using a
    by (cases "caller s") (auto simp: inv_counter_def interrupt_step_def)
next
  case (WorkerStep i oc)
  show ?thesis
  proof (cases "i < length (workers s)")
    case False
    then show ?thesis using a WorkerStep by (simp add: worker_step_outside)
  next
    case True
    show ?thesis
    proof (cases "workers s ! i")
      case Get
      then show ?thesis using a WorkerStep True
        by (cases "queue s")
           (auto simp: inv_counter_def worker_step_def sum_update_take)
    next
      case (Incr x)
      have "sum_list (map owes (workers s))
          = sum_list (map owes ((workers s)[i := Process x (counter (pool_counter s) + 1, cmax (pool_counter s))]))
            + owes (workers s ! i)"
        using True by (intro sum_update_give) auto
      then show ?thesis using a b WorkerStep True Incr
        by (auto simp: inv_counter_def inv_basic_def worker_step_def increment_def Let_def)
    next
      case (Process x info)
      obtain t :: "'a thread" where t: "t = (case oc of None \<Rightarrow> TaskDone
          | Some err \<Rightarrow> if is_Exception err then SetStop else Killed)" by simp
      then have "owes t = 0" by (cases oc rule: process_cases) simp_all
      then have "sum_list (map owes ((workers s)[i := t])) = sum_list (map owes (workers s))"
        using True Process by (simp add: sum_update_same)
      then show ?thesis using a WorkerStep True Process t
        by (simp add: inv_counter_def worker_step_def)
    qed (use a WorkerStep True in
          \<open>auto simp: inv_counter_def worker_step_def sum_update_same\<close>)
  qed
qed

lemma inv_stopped_step:
  assumes a: "inv_stopped s"
  shows "inv_stopped (step ev s)"
proof (cases ev)
  case CallerStep
  then show ?thesis using a
    by (cases "caller s") (auto simp: inv_stopped_def caller_step_def nth_list_update)
next
  case InterruptEvent
  then show ?thesis using a
    by (cases "caller s") (auto simp: inv_stopped_def interrupt_step_def)
next
  case (WorkerStep i oc)
  show ?thesis
  proof (cases "i < length (workers s)")
    case False
    then show ?thesis using a WorkerStep by (simp add: worker_step_outside)
  next
    case True
    then show ?thesis using a WorkerStep
      by (cases "workers s ! i"; cases "queue s"; cases oc rule: process_cases)
         (auto simp: inv_stopped_def worker_step_def increment_def nth_list_update)
  qed
qed

lemma inv_fail_step:
  assumes c: "inv_caller s" and a: "inv_fail s"
  shows "inv_fail (step ev s)"
proof (cases ev)
  case CallerStep
  show ?thesis
  proof (cases "caller s")
    case (Starting k)
    show ?thesis
    proof (cases "k < length (workers s)")
      case True
      then have ns: "workers s ! k = NotStarted" using c Starting by (simp add: inv_caller_def)
      then have "sum_list (map raising ((workers s)[k := LoopTop]))
          = sum_list (map raising (workers s))"
        using True by (simp add: sum_update_same)
      then show ?thesis using a CallerStep Starting True ns
        by (auto simp: inv_fail_def caller_step_def nth_list_update)
    next
      case False
      then show ?thesis using a CallerStep Starting by (simp add: inv_fail_def caller_step_def)
    qed
  qed (use a CallerStep in \<open>auto simp: inv_fail_def caller_step_def\<close>)
next
  case InterruptEvent
  then show ?thesis using a
    by (cases "caller s") (auto simp: inv_fail_def interrupt_step_def)
next
  case (WorkerStep i oc)
  show ?thesis
  proof (cases "i < length (workers s)")
    case False
    then show ?thesis using a WorkerStep by (simp add: worker_step_outside)
  next
    case True
    show ?thesis
    proof (cases "workers s ! i")
      case SetStop
      then show ?thesis using a WorkerStep True
        by (auto simp: inv_fail_def worker_step_def nth_list_update)
    next
      case (Process x info)
      then show ?thesis using a WorkerStep True
        by (cases oc rule: process_cases)
           (auto simp: inv_fail_def worker_step_def nth_list_update sum_update_take)
    qed (use a WorkerStep True in
          \<open>auto simp: inv_fail_def worker_step_def increment_def nth_list_update sum_update_take
             split: list.splits\<close>)
  qed
qed

lemma inv_killed_step:
  assumes c: "inv_caller s" and a: "inv_killed s"
  shows "inv_killed (step ev s)"
proof (cases ev)
  case CallerStep
  show ?thesis
  proof (cases "caller s")
    case (Starting k)
    show ?thesis
    proof (cases "k < length (workers s)")
      case True
      then have "workers s ! k = NotStarted" using c Starting by (simp add: inv_caller_def)
      then have "sum_list (map dead ((workers s)[k := LoopTop])) = sum_list (map dead (workers s))"
        using True by (simp add: sum_update_same)
      then show ?thesis using a CallerStep Starting True
        by (simp add: inv_killed_def caller_step_def)
    next
      case False
      then show ?thesis using a CallerStep Starting by (simp add: inv_killed_def caller_step_def)
    qed
  qed (use a CallerStep in \<open>auto simp: inv_killed_def caller_step_def\<close>)
next
  case InterruptEvent
  then show ?thesis using a
    by (cases "caller s") (auto simp: inv_killed_def interrupt_step_def)
next
  case (WorkerStep i oc)
  show ?thesis
  proof (cases "i < length (workers s)")
    case False
    then show ?thesis using a WorkerStep by (simp add: worker_step_outside)
  next
    case True
    show ?thesis
    proof (cases "workers s ! i")
      case (Process x info)
      then show ?thesis using a WorkerStep True
        by (cases oc rule: process_cases)
           (simp_all add: inv_killed_def worker_step_def sum_update_take sum_update_same)
    next
      case Get
      then show ?thesis using a WorkerStep True
        by (cases "queue s")
           (simp_all add: inv_killed_def worker_step_def sum_update_same)
    qed (use a WorkerStep True in
          \<open>simp_all add: inv_killed_def worker_step_def increment_def sum_update_same\<close>)
  qed
qed

lemma inv_dequeued_step:
  assumes a: "inv_dequeued its s"
  shows "inv_dequeued its (step ev s)"
proof (cases ev)
  case CallerStep
  then show ?thesis using a
    by (cases "caller s") (auto simp: inv_dequeued_def caller_step_def)
next
  case InterruptEvent
  then show ?thesis using a
    by (cases "caller s") (auto simp: inv_dequeued_def interrupt_step_def)
next
  case (WorkerStep i oc)
  then show ?thesis using a
    by (cases "workers s ! i"; cases "queue s")
       (auto simp: inv_dequeued_def worker_step_def increment_def)
qed

lemma late_needs_signal: "late_dequeues i h \<noteq> [] \<Longrightarrow> SignalSet \<in> set h"
  by (induction i h rule: late_dequeues.induct) (auto split: if_splits)

lemma inv_late_step:
  assumes b: "inv_basic n its s" and c: "inv_caller s" and a: "inv_late s"
  shows "inv_late (step ev s)"
proof (cases ev)
  case CallerStep
  show ?thesis
  proof (cases "caller s")
    case (Starting k)
    show ?thesis
    proof (cases "k < length (workers s)")
      case True
      then have "workers s ! k = NotStarted" using c Starting by (simp add: inv_caller_def)
      then show ?thesis using a CallerStep Starting True
        by (auto simp: inv_late_def caller_step_def nth_list_update)
    next
      case False
      then show ?thesis using a CallerStep Starting by (simp add: inv_late_def caller_step_def)
    qed
  qed (use a CallerStep in \<open>auto simp: inv_late_def caller_step_def\<close>)
next
  case InterruptEvent
  then show ?thesis using a
    by (cases "caller s") (auto simp: inv_late_def interrupt_step_def)
next
  case (WorkerStep i oc)
  show ?thesis
  proof (cases "i < length (workers s)")
    case False
    then show ?thesis using a WorkerStep by (simp add: worker_step_outside)
  next
    case True
    have sig: "\<And>j. late_dequeues j (history s) \<noteq> [] \<Longrightarrow> stop_event s"
      using b late_needs_signal by (auto simp: inv_basic_def)
    show ?thesis
      unfolding inv_late_def
    proof
      fix j
      have aj: "late_dequeues j (history s) = []
        \<or> (length (late_dequeues j (history s)) = 1 \<and> j < length (workers s)
            \<and> workers s ! j \<noteq> Get \<and> workers s ! j \<noteq> NotStarted)"
        using a by (simp add: inv_late_def)
      show "late_dequeues j (history (step ev s)) = []
        \<or> (length (late_dequeues j (history (step ev s))) = 1
            \<and> j < length (workers (step ev s))
            \<and> workers (step ev s) ! j \<noteq> Get \<and> workers (step ev s) ! j \<noteq> NotStarted)"
        using aj sig [of j] True WorkerStep
        by (cases "workers s ! i"; cases "queue s"; cases oc rule: process_cases)
           (auto simp: worker_step_def increment_def nth_list_update)
    qed
  qed
qed

lemma sum_list_replicate_zero: "sum_list (replicate n (0::'c::comm_monoid_add)) = 0"
  by (induction n) auto

lemma pool_inv_init: "pool_inv n its (filled_pool n its)"
  by (simp add: pool_inv_def filled_pool_def fill_def WorkerPool_init_def SafeCounter_init_def
      inv_basic_def inv_caller_def inv_items_def inv_dequeued_def inv_counter_def
      inv_stopped_def inv_fail_def inv_killed_def inv_late_def sum_list_replicate_zero)

lemma pool_inv_step:
  assumes "pool_inv n its s"
  shows "pool_inv n its (step ev s)"
proof -
  from assms have b: "inv_basic n its s" and c: "inv_caller s" and i: "inv_items its s"
    and d: "inv_dequeued its s" and k: "inv_counter its s" and t: "inv_stopped s"
    and f: "inv_fail s" and x: "inv_killed s" and l: "inv_late s"
    by (simp_all add: pool_inv_def)
  show ?thesis
    unfolding pool_inv_def
    using inv_basic_step [OF b, of ev] inv_caller_step [OF c, of ev]
      inv_items_step [OF c i, of ev] inv_dequeued_step [OF d, of ev]
      inv_counter_step [OF b c k, of ev] inv_stopped_step [OF t, of ev]
      inv_fail_step [OF c f, of ev] inv_killed_step [OF c x, of ev]
      inv_late_step [OF b c l, of ev]
    by simp
qed

lemma pool_inv_run: "pool_inv n its (run sch (filled_pool n its))"
  by (induction sch rule: rev_induct) (simp_all add: pool_inv_init pool_inv_step)

lemma sum_list_all_zero:
  "(\<And>t. t \<in> set ws \<Longrightarrow> f t = (0::'c::comm_monoid_add)) \<Longrightarrow> sum_list (map f ws) = 0"
  by (induction ws) auto

lemma all_ended_sums:
  assumes "\<forall>i<length ws. ws ! i = Stopped \<or> ws ! i = Killed"
  shows "sum_list (map held ws) = {#}" "sum_list (map owes ws) = 0"
    "sum_list (map raising ws) = 0"
proof -
  have st: "\<And>t. t \<in> set ws \<Longrightarrow> t = Stopped \<or> t = Killed"
    using assms by (auto simp: in_set_conv_nth)
  show "sum_list (map held ws) = {#}"
    using sum_list_all_zero [of ws held] st by fastforce
  show "sum_list (map owes ws) = 0"
    using sum_list_all_zero [of ws owes] st by fastforce
  show "sum_list (map raising ws) = 0"
    using sum_list_all_zero [of ws raising] st by fastforce
qed

lemma none_dead:
  assumes "sum_list (map dead ws) = 0" and "i < length ws"
  shows "ws ! i \<noteq> Killed"
proof
  assume "ws ! i = Killed"
  then have "dead (ws ! i) = 1" by simp
  moreover have "dead (ws ! i) \<in> set (map dead ws)" using assms(2) by simp
  ultimately show False using assms(1) by (auto simp: sum_list_eq_0_iff simp del: set_map)
qed

lemma at_loop_test_step:
  assumes "stop_event s" and "i < length (workers s)"
    and "workers s ! i = LoopTop \<or> workers s ! i = TestStop \<or> workers s ! i = Stopped"
  shows "stop_event (step ev s) \<and> length (workers (step ev s)) = length (workers s)
    \<and> (workers (step ev s) ! i = LoopTop \<or> workers (step ev s) ! i = TestStop
        \<or> workers (step ev s) ! i = Stopped)
    \<and> taken i (history (step ev s)) = taken i (history s)"
proof (cases ev)
  case CallerStep
  then show ?thesis using assms
    by (cases "caller s") (auto simp: caller_step_def nth_list_update)
next
  case InterruptEvent
  then show ?thesis using assms
    by (cases "caller s") (auto simp: interrupt_step_def)
next
  case (WorkerStep j oc)
  show ?thesis
  proof (cases "j < length (workers s)")
    case False
    then show ?thesis using assms WorkerStep by (simp add: worker_step_outside)
  next
    case True
    show ?thesis
    proof (cases "j = i")
      case True
      then show ?thesis using assms WorkerStep
        by (auto simp: worker_step_def)
    next
      case False
      then show ?thesis using assms WorkerStep True
        by (cases "workers s ! j"; cases "queue s")
           (auto simp: worker_step_def increment_def nth_list_update)
    qed
  qed
qed

lemma at_loop_test_run:
  assumes "stop_event s" and "i < length (workers s)"
    and "workers s ! i = LoopTop \<or> workers s ! i = TestStop \<or> workers s ! i = Stopped"
  shows "stop_event (run sch s) \<and> length (workers (run sch s)) = length (workers s)
    \<and> (workers (run sch s) ! i = LoopTop \<or> workers (run sch s) ! i = TestStop
        \<or> workers (run sch s) ! i = Stopped)
    \<and> taken i (history (run sch s)) = taken i (history s)"
proof (induction sch rule: rev_induct)
  case Nil
  then show ?case using assms by simp
next
  case (snoc ev sch)
  then show ?case using assms(2) at_loop_test_step [of "run sch s" i ev] by simp
qed

lemmas pool_eval = run_def filled_pool_def fill_def WorkerPool_init_def SafeCounter_init_def
  caller_step_def worker_step_def interrupt_step_def increment_def Let_def numeral_2_eq_2

lemma worker_step_queue_empty: "queue s = [] \<Longrightarrow> queue (worker_step i oc s) = []"
  by (cases "workers s ! i") (auto simp: worker_step_def increment_def)

lemma worker_step_blocked:
  assumes "queue s = []" and "j < length (workers s)" and "workers s ! j = Get"
  shows "workers (worker_step i oc s) ! j = Get"
proof (cases "i = j")
  case True
  then show ?thesis using assms by (simp add: worker_step_def)
next
  case False
  then show ?thesis using assms
    by (cases "workers s ! i") (auto simp: worker_step_def increment_def nth_list_update)
qed

lemma blocked_alive: "j < length ws \<Longrightarrow> ws ! j = Get \<Longrightarrow> list_ex isAlive ws"
  unfolding list_ex_iff using nth_mem [of j ws] by (intro bexI [of _ "ws ! j"]) simp_all

lemma blocked_run:
  assumes "queue s0 = []" and "j < length (workers s0)" and "workers s0 ! j = Get"
    and "caller s0 = Waiting"
  shows "queue (run sch s0) = [] \<and> length (workers (run sch s0)) = length (workers s0)
    \<and> workers (run sch s0) ! j = Get
    \<and> caller (run sch s0) =
        (if count_list sch InterruptEvent = 0 then Waiting
         else if count_list sch InterruptEvent = 1 then InterruptWaiting
         else Finished KeyboardInterrupt)"
proof (induction sch rule: rev_induct)
  case Nil
  then show ?case using assms by simp
next
  case (snoc ev sch)
  let ?s = "run sch s0"
  have q: "queue ?s = []" and l: "length (workers ?s) = length (workers s0)"
    and g: "workers ?s ! j = Get" using snoc by simp_all
  have al: "list_ex isAlive (workers ?s)"
    using g l assms(2) by (intro blocked_alive [of j]) simp_all
  show ?case
  proof (cases ev)
    case CallerStep
    then show ?thesis using snoc al by (auto simp: caller_step_def)
  next
    case InterruptEvent
    then show ?thesis using snoc by (auto simp: interrupt_step_def)
  next
    case (WorkerStep i oc)
    then show ?thesis
      using snoc worker_step_queue_empty [OF q, of i oc]
        worker_step_blocked [OF q _ g, of i oc] l assms(2)
      by auto
  qed
qed

lemma race_state:
  "queue (run race_schedule (filled_pool 2 [x])) = []
   \<and> length (workers (run race_schedule (filled_pool 2 [x]))) = 2
   \<and> workers (run race_schedule (filled_pool 2 [x])) ! 1 = Get
   \<and> caller (run race_schedule (filled_pool 2 [x])) = Waiting"
  by (simp add: pool_eval race_schedule_def)

lemma empty_pool_run:
  "InterruptEvent \<notin> set sch \<Longrightarrow>
   run sch (filled_pool 0 its) =
     (filled_pool 0 its)\<lparr>caller :=
        (if count_list sch CallerStep = 0 then Starting 0
         else if count_list sch CallerStep = 1 then Waiting
         else if count_list sch CallerStep = 2 then AfterWait
         else Finished Returned)\<rparr>"
proof (induction sch rule: rev_induct)
  case Nil
  then show ?case by (simp add: filled_pool_def fill_def WorkerPool_init_def)
next
  case (snoc ev sch)
  then show ?case
    by (cases ev)
       (auto simp: filled_pool_def fill_def WorkerPool_init_def caller_step_def worker_step_def)
qed

subsection \<open>Claims\<close>

text \<open>
  Claim C1 as stated fails: in the run of \<open>killed_schedule\<close>, with one worker and two
  items, the handler ends the first item with \<^verbatim>\<open>SystemExit\<close>, which the clause
  \<^verbatim>\<open>except Exception\<close> does not catch; the thread dies with the stop event clear
  and \<^verbatim>\<open>start()\<close> returns normally with the second item still on the queue.
\<close>

theorem unprocessed_item_counterexample:
  "caller (run killed_schedule (filled_pool 1 [''N00E010.hgt'', ''N00E011.hgt''])) = Finished Returned
   \<and> queue (run killed_schedule (filled_pool 1 [''N00E010.hgt'', ''N00E011.hgt''])) = [''N00E011.hgt'']
   \<and> processed (history (run killed_schedule (filled_pool 1 [''N00E010.hgt'', ''N00E011.hgt''])))
       = [(0, ''N00E010.hgt'')]"
  by (simp add: pool_eval killed_schedule_def)

text \<open>
  Claim C1, amended. With at least one worker, whatever the schedule: when
  \<^verbatim>\<open>start()\<close> has returned normally and no call of \<^verbatim>\<open>process\<close> ended with
  an exception outside \<^verbatim>\<open>Exception\<close>, the queue is empty, the items taken from the
  queue are the items \<^verbatim>\<open>fill\<close> put there, each was handed to \<^verbatim>\<open>process\<close>
  once, by the worker recorded with it, and no call of \<^verbatim>\<open>process\<close> failed.
\<close>

theorem every_item_processed_once:
  assumes "1 \<le> n" and "caller (run sch (filled_pool n its)) = Finished Returned"
    and "killed (history (run sch (filled_pool n its))) = []"
  shows "queue (run sch (filled_pool n its)) = []
    \<and> mset (map snd (dequeued (history (run sch (filled_pool n its))))) = mset its
    \<and> mset (map snd (processed (history (run sch (filled_pool n its))))) = mset its
    \<and> failures (history (run sch (filled_pool n its))) = []"
proof -
  let ?s = "run sch (filled_pool n its)"
  have inv: "pool_inv n its ?s" by (rule pool_inv_run)
  then have len: "length (workers ?s) = n" by (simp add: pool_inv_def inv_basic_def)
  have en: "\<forall>i<length (workers ?s). workers ?s ! i = Stopped \<or> workers ?s ! i = Killed"
    and ns: "\<not> stop_event ?s"
    using inv assms(2) by (simp_all add: pool_inv_def inv_caller_def)
  have "sum_list (map dead (workers ?s)) = 0"
    using inv assms(3) by (simp add: pool_inv_def inv_killed_def)
  then have "workers ?s ! 0 \<noteq> Killed" using none_dead [of "workers ?s" 0] len assms(1) by simp
  then have "workers ?s ! 0 = Stopped" using en len assms(1) by auto
  then have q: "queue ?s = []"
    using inv ns len assms(1) by (auto simp: pool_inv_def inv_stopped_def)
  have d: "mset (map snd (dequeued (history ?s))) = mset its"
    using inv q by (simp add: pool_inv_def inv_dequeued_def)
  have p: "mset (map snd (processed (history ?s))) = mset its"
    using inv q all_ended_sums(1) [OF en] by (simp add: pool_inv_def inv_items_def)
  have f: "failures (history ?s) = []"
    using inv ns all_ended_sums(3) [OF en] by (auto simp: pool_inv_def inv_fail_def)
  show ?thesis using q d p f by simp
qed

theorem every_item_processed_once_witness:
  "(1::nat) \<le> 2
   \<and> caller (run clean_schedule (filled_pool 2 [''N00E010.hgt'', ''N00E011.hgt''])) = Finished Returned
   \<and> killed (history (run clean_schedule (filled_pool 2 [''N00E010.hgt'', ''N00E011.hgt'']))) = []
   \<and> processed (history (run clean_schedule (filled_pool 2 [''N00E010.hgt'', ''N00E011.hgt''])))
       = [(1, ''N00E011.hgt''), (0, ''N00E010.hgt'')]
   \<and> mset (map snd (processed (history (run clean_schedule
          (filled_pool 2 [''N00E010.hgt'', ''N00E011.hgt''])))))
       = mset [''N00E010.hgt'', ''N00E011.hgt'']"
  using every_item_processed_once [of 2 clean_schedule "[''N00E010.hgt'', ''N00E011.hgt'']"]
  by (simp add: pool_eval clean_schedule_def)

text \<open>
  Claim C2, at the input where the code departs from it: a pool of two workers and one
  item, after the race of \<open>race_schedule\<close>. Whatever happens next, worker 1 stays in
  \<^verbatim>\<open>queue.get()\<close> on the empty queue, so it stays alive, \<^verbatim>\<open>start()\<close> never
  returns and never raises \<^verbatim>\<open>WorkerPoolException\<close>; setting the stop event (one
  interrupt) does not end the wait, and only a second interrupt, raised in the handler of
  the first, leaves \<^verbatim>\<open>start()\<close>.
\<close>

theorem start_blocks_after_race:
  "workers (run sch (run race_schedule (filled_pool 2 [x]))) ! 1 = Get
   \<and> list_ex isAlive (workers (run sch (run race_schedule (filled_pool 2 [x]))))
   \<and> queue (run sch (run race_schedule (filled_pool 2 [x]))) = []
   \<and> caller (run sch (run race_schedule (filled_pool 2 [x]))) \<noteq> Finished Returned
   \<and> caller (run sch (run race_schedule (filled_pool 2 [x]))) \<noteq> Finished WorkerPoolException
   \<and> (count_list sch InterruptEvent < 2 \<longrightarrow>
        (\<forall>r. caller (run sch (run race_schedule (filled_pool 2 [x]))) \<noteq> Finished r))"
proof -
  let ?s0 = "run race_schedule (filled_pool 2 [x])"
  have b: "queue (run sch ?s0) = [] \<and> length (workers (run sch ?s0)) = length (workers ?s0)
    \<and> workers (run sch ?s0) ! 1 = Get
    \<and> caller (run sch ?s0) =
        (if count_list sch InterruptEvent = 0 then Waiting
         else if count_list sch InterruptEvent = 1 then InterruptWaiting
         else Finished KeyboardInterrupt)"
    using race_state [of x] by (intro blocked_run) simp_all
  then have "list_ex isAlive (workers (run sch ?s0))"
    using race_state [of x] by (intro blocked_alive [of 1]) simp_all
  then show ?thesis using b by (auto split: if_splits)
qed

theorem start_blocks_after_race_witness:
  "count_list [CallerStep, WorkerStep 1 None, InterruptEvent, CallerStep] InterruptEvent < 2
   \<and> caller (run [CallerStep, WorkerStep 1 None, InterruptEvent, CallerStep]
        (run race_schedule (filled_pool 2 [''N00E010.hgt'']))) = InterruptWaiting
   \<and> workers (run [CallerStep, WorkerStep 1 None, InterruptEvent, CallerStep]
        (run race_schedule (filled_pool 2 [''N00E010.hgt'']))) ! 1 = Get"
  using start_blocks_after_race [of "[CallerStep, WorkerStep 1 None, InterruptEvent, CallerStep]" "''N00E010.hgt''"]
  by (simp add: pool_eval race_schedule_def)

text \<open>
  Claim C3. When \<^verbatim>\<open>start()\<close> has ended with outcome \<open>r\<close>: it is
  \<^verbatim>\<open>KeyboardInterrupt\<close> exactly when an interrupt reached the running call; it is
  \<^verbatim>\<open>WorkerPoolException\<close> exactly when there was no interrupt and the stop event is
  set, which is exactly when there was no interrupt and at least one call of
  \<^verbatim>\<open>process\<close> raised an \<^verbatim>\<open>Exception\<close>, however many did; it is a normal
  return exactly when there was no interrupt and the event is clear; and unless it is the
  interrupt, no worker is alive. A handler that ends outside \<^verbatim>\<open>Exception\<close> does
  not set the event and is no failure here: the run of \<open>killed_schedule\<close> returns
  normally.
\<close>

theorem start_outcome:
  assumes "caller (run sch (filled_pool n its)) = Finished r"
  shows "(r = KeyboardInterrupt \<longleftrightarrow> InterruptRaised \<in> set (history (run sch (filled_pool n its))))
    \<and> (r = WorkerPoolException \<longleftrightarrow>
          InterruptRaised \<notin> set (history (run sch (filled_pool n its)))
          \<and> stop_event (run sch (filled_pool n its)))
    \<and> (r = WorkerPoolException \<longleftrightarrow>
          InterruptRaised \<notin> set (history (run sch (filled_pool n its)))
          \<and> failures (history (run sch (filled_pool n its))) \<noteq> [])
    \<and> (r = Returned \<longleftrightarrow>
          InterruptRaised \<notin> set (history (run sch (filled_pool n its)))
          \<and> \<not> stop_event (run sch (filled_pool n its)))
    \<and> (r = KeyboardInterrupt \<or> \<not> list_ex isAlive (workers (run sch (filled_pool n its))))"
proof -
  let ?s = "run sch (filled_pool n its)"
  have inv: "pool_inv n its ?s" by (rule pool_inv_run)
  have ic: "inv_caller ?s" and ifl: "inv_fail ?s" using inv by (simp_all add: pool_inv_def)
  show ?thesis
  proof (cases r)
    case Returned
    then have en: "\<forall>i<length (workers ?s). workers ?s ! i = Stopped \<or> workers ?s ! i = Killed"
      and ns: "\<not> stop_event ?s" and ni: "InterruptRaised \<notin> set (history ?s)"
      using ic assms by (auto simp: inv_caller_def)
    have "failures (history ?s) = []"
      using ifl ns all_ended_sums(3) [OF en] by (auto simp: inv_fail_def)
    moreover have "\<not> list_ex isAlive (workers ?s)"
      using en by (fastforce simp: list_ex_iff in_set_conv_nth isAlive_iff)
    ultimately show ?thesis using Returned ns ni by simp
  next
    case WorkerPoolException
    then have en: "\<forall>i<length (workers ?s). workers ?s ! i = Stopped \<or> workers ?s ! i = Killed"
      and ns: "stop_event ?s" and ni: "InterruptRaised \<notin> set (history ?s)"
      using ic assms by (auto simp: inv_caller_def)
    have "failures (history ?s) \<noteq> []"
      using ifl ns ni by (auto simp: inv_fail_def)
    moreover have "\<not> list_ex isAlive (workers ?s)"
      using en by (fastforce simp: list_ex_iff in_set_conv_nth isAlive_iff)
    ultimately show ?thesis using WorkerPoolException ns ni by simp
  next
    case KeyboardInterrupt
    then have "InterruptRaised \<in> set (history ?s)"
      using ic assms by (auto simp: inv_caller_def)
    then show ?thesis using KeyboardInterrupt by simp
  qed
qed

theorem start_outcome_witness:
  "caller (run failing_schedule (filled_pool 2 [''N00E010.hgt'', ''N00E011.hgt'']))
      = Finished WorkerPoolException
   \<and> failures (history (run failing_schedule (filled_pool 2 [''N00E010.hgt'', ''N00E011.hgt''])))
      = [(1, ''N00E011.hgt'', IOError), (0, ''N00E010.hgt'', OtherException)]
   \<and> stop_event (run failing_schedule (filled_pool 2 [''N00E010.hgt'', ''N00E011.hgt'']))
   \<and> caller (run interrupted_schedule (filled_pool 2 [''N00E010.hgt'', ''N00E011.hgt'']))
      = Finished KeyboardInterrupt
   \<and> InterruptRaised \<in> set (history (run interrupted_schedule
        (filled_pool 2 [''N00E010.hgt'', ''N00E011.hgt''])))
   \<and> caller (run killed_schedule (filled_pool 1 [''N00E010.hgt'', ''N00E011.hgt'']))
      = Finished Returned
   \<and> failures (history (run killed_schedule (filled_pool 1 [''N00E010.hgt'', ''N00E011.hgt''])))
      = []"
  using start_outcome [of failing_schedule 2 "[''N00E010.hgt'', ''N00E011.hgt'']" WorkerPoolException]
    start_outcome [of interrupted_schedule 2 "[''N00E010.hgt'', ''N00E011.hgt'']" KeyboardInterrupt]
    start_outcome [of killed_schedule 1 "[''N00E010.hgt'', ''N00E011.hgt'']" Returned]
  by (simp add: pool_eval failing_schedule_def interrupted_schedule_def killed_schedule_def)

text \<open>
  Claim C5 as stated fails: in the run of \<open>late_schedule\<close> worker 1 takes the second item
  after the stop event was set, and processes it.
\<close>

theorem late_item_counterexample:
  "late_dequeues 1 (history (run late_schedule (filled_pool 2 [''N00E010.hgt'', ''N00E011.hgt''])))
      = [''N00E011.hgt'']
   \<and> processed (history (run late_schedule (filled_pool 2 [''N00E010.hgt'', ''N00E011.hgt''])))
      = [(1, ''N00E011.hgt''), (0, ''N00E010.hgt'')]"
  by (simp add: pool_eval late_schedule_def)

text \<open>
  Claim C5, amended. Whatever the schedule, each worker takes at most one item from the
  queue after the stop event was set; and a worker that stands at its loop test (at
  \<^verbatim>\<open>queue.empty()\<close> or at \<^verbatim>\<open>stop_event.is_set()\<close>) when the event is set
  takes no further item, whatever happens afterwards.
\<close>

theorem one_late_item_per_worker:
  "length (late_dequeues i (history (run sch (filled_pool n its)))) \<le> 1
   \<and> (stop_event (run sch (filled_pool n its)) \<and> i < n
        \<and> (workers (run sch (filled_pool n its)) ! i = LoopTop
            \<or> workers (run sch (filled_pool n its)) ! i = TestStop)
      \<longrightarrow> taken i (history (run later (run sch (filled_pool n its))))
            = taken i (history (run sch (filled_pool n its))))"
proof -
  let ?s = "run sch (filled_pool n its)"
  have inv: "pool_inv n its ?s" by (rule pool_inv_run)
  then have "inv_late ?s" by (simp add: pool_inv_def)
  then have a: "length (late_dequeues i (history ?s)) \<le> 1"
    by (auto simp: inv_late_def dest: spec [of _ i])
  have len: "length (workers ?s) = n" using inv by (simp add: pool_inv_def inv_basic_def)
  have b: "taken i (history (run later ?s)) = taken i (history ?s)"
    if "stop_event ?s" "i < n" "workers ?s ! i = LoopTop \<or> workers ?s ! i = TestStop"
    using at_loop_test_run [of ?s i later] that len by auto
  show ?thesis using a b by blast
qed

theorem one_late_item_per_worker_witness:
  "stop_event (run signalled_schedule (filled_pool 2 [''N00E010.hgt'', ''N00E011.hgt'']))
   \<and> (0::nat) < 2
   \<and> workers (run signalled_schedule (filled_pool 2 [''N00E010.hgt'', ''N00E011.hgt''])) ! 0 = LoopTop
   \<and> taken 0 (history (run [WorkerStep 0 None, WorkerStep 1 None, WorkerStep 0 None, WorkerStep 1 None]
        (run signalled_schedule (filled_pool 2 [''N00E010.hgt'', ''N00E011.hgt'']))))
      = [''N00E010.hgt'']
   \<and> taken 1 (history (run [WorkerStep 0 None, WorkerStep 1 None, WorkerStep 0 None, WorkerStep 1 None]
        (run signalled_schedule (filled_pool 2 [''N00E010.hgt'', ''N00E011.hgt'']))))
      = [''N00E011.hgt'']"
  using one_late_item_per_worker [of 0 signalled_schedule 2 "[''N00E010.hgt'', ''N00E011.hgt'']"
      "[WorkerStep 0 None, WorkerStep 1 None, WorkerStep 0 None, WorkerStep 1 None]"]
  by (simp add: pool_eval signalled_schedule_def)

text \<open>
  Claim C6 as stated fails, in two ways. A pool without workers returns normally with the
  counter at 0 and one item counted in \<^verbatim>\<open>max\<close>. And with one worker and two items,
  in the run of \<open>killed_schedule\<close>, the handler ends the first item with
  \<^verbatim>\<open>SystemExit\<close> and \<^verbatim>\<open>start()\<close> returns normally with the counter at 1 of 2.
\<close>

theorem counter_short_counterexample:
  "caller (run [CallerStep, CallerStep, CallerStep] (filled_pool 0 [''N00E010.hgt''])) = Finished Returned
   \<and> counter (pool_counter (run [CallerStep, CallerStep, CallerStep] (filled_pool 0 [''N00E010.hgt'']))) = 0
   \<and> cmax (pool_counter (run [CallerStep, CallerStep, CallerStep] (filled_pool 0 [''N00E010.hgt'']))) = 1
   \<and> caller (run killed_schedule (filled_pool 1 [''N00E010.hgt'', ''N00E011.hgt''])) = Finished Returned
   \<and> counter (pool_counter (run killed_schedule (filled_pool 1 [''N00E010.hgt'', ''N00E011.hgt'']))) = 1
   \<and> cmax (pool_counter (run killed_schedule (filled_pool 1 [''N00E010.hgt'', ''N00E011.hgt'']))) = 2"
  by (simp add: pool_eval killed_schedule_def)

text \<open>
  Claim C6, amended. Whatever the schedule, the counter never exceeds
  \<^verbatim>\<open>counter.max\<close>, which is the item count; and with at least one worker, when
  \<^verbatim>\<open>start()\<close> has returned normally and no call of \<^verbatim>\<open>process\<close> ended with
  an exception outside \<^verbatim>\<open>Exception\<close>, the counter equals the item count.
\<close>

theorem counter_bounded_and_final:
  "counter (pool_counter (run sch (filled_pool n its)))
      \<le> cmax (pool_counter (run sch (filled_pool n its)))
   \<and> cmax (pool_counter (run sch (filled_pool n its))) = int (length its)
   \<and> (1 \<le> n \<and> caller (run sch (filled_pool n its)) = Finished Returned
        \<and> killed (history (run sch (filled_pool n its))) = [] \<longrightarrow>
        counter (pool_counter (run sch (filled_pool n its))) = int (length its))"
proof -
  let ?s = "run sch (filled_pool n its)"
  have inv: "pool_inv n its ?s" by (rule pool_inv_run)
  have c: "counter (pool_counter ?s) + int (length (queue ?s))
      + int (sum_list (map owes (workers ?s))) = int (length its)"
    using inv by (simp add: pool_inv_def inv_counter_def)
  have m: "cmax (pool_counter ?s) = int (length its)"
    using inv by (simp add: pool_inv_def inv_basic_def)
  have fin: "counter (pool_counter ?s) = int (length its)"
    if "1 \<le> n" "caller ?s = Finished Returned" "killed (history ?s) = []"
  proof -
    have len: "length (workers ?s) = n" using inv by (simp add: pool_inv_def inv_basic_def)
    have en: "\<forall>i<length (workers ?s). workers ?s ! i = Stopped \<or> workers ?s ! i = Killed"
      and ns: "\<not> stop_event ?s"
      using inv that(2) by (simp_all add: pool_inv_def inv_caller_def)
    have "sum_list (map dead (workers ?s)) = 0"
      using inv that(3) by (simp add: pool_inv_def inv_killed_def)
    then have "workers ?s ! 0 \<noteq> Killed" using none_dead [of "workers ?s" 0] len that(1) by simp
    then have "workers ?s ! 0 = Stopped" using en len that(1) by auto
    then have q: "queue ?s = []"
      using inv ns len that(1) by (auto simp: pool_inv_def inv_stopped_def)
    show ?thesis using c q all_ended_sums(2) [OF en] by simp
  qed
  show ?thesis using c m fin by auto
qed

theorem counter_bounded_and_final_witness:
  "(1::nat) \<le> 2
   \<and> caller (run clean_schedule (filled_pool 2 [''N00E010.hgt'', ''N00E011.hgt''])) = Finished Returned
   \<and> killed (history (run clean_schedule (filled_pool 2 [''N00E010.hgt'', ''N00E011.hgt'']))) = []
   \<and> counter (pool_counter (run clean_schedule (filled_pool 2 [''N00E010.hgt'', ''N00E011.hgt'']))) = 2"
  using counter_bounded_and_final [of clean_schedule 2 "[''N00E010.hgt'', ''N00E011.hgt'']"]
  by (simp add: pool_eval clean_schedule_def)

text \<open>
  Claim C10. A pool built with \<^verbatim>\<open>size = 0\<close> is a pool like any other. Filled with
  any items and left uninterrupted, \<^verbatim>\<open>start()\<close> returns normally at the caller's
  third step, the stop event clear, with every item still on the queue and none taken or
  processed.
\<close>

theorem empty_pool_returns:
  assumes "InterruptEvent \<notin> set sch" and "3 \<le> count_list sch CallerStep"
  shows "caller (run sch (filled_pool 0 its)) = Finished Returned
    \<and> processed (history (run sch (filled_pool 0 its))) = []
    \<and> dequeued (history (run sch (filled_pool 0 its))) = []
    \<and> queue (run sch (filled_pool 0 its)) = its
    \<and> \<not> stop_event (run sch (filled_pool 0 its))"
  using assms empty_pool_run [OF assms(1), of its]
  by (simp add: filled_pool_def fill_def WorkerPool_init_def)

theorem empty_pool_returns_witness:
  "InterruptEvent \<notin> set [CallerStep, WorkerStep 0 None, CallerStep, CallerStep]
   \<and> 3 \<le> count_list [CallerStep, WorkerStep 0 None, CallerStep, CallerStep] CallerStep
   \<and> caller (run [CallerStep, WorkerStep 0 None, CallerStep, CallerStep]
        (filled_pool 0 [''N00E010.hgt'', ''N00E011.hgt''])) = Finished Returned
   \<and> queue (run [CallerStep, WorkerStep 0 None, CallerStep, CallerStep]
        (filled_pool 0 [''N00E010.hgt'', ''N00E011.hgt''])) = [''N00E010.hgt'', ''N00E011.hgt'']"
  using empty_pool_returns [of "[CallerStep, WorkerStep 0 None, CallerStep, CallerStep]"
              "[''N00E010.hgt'', ''N00E011.hgt'']"]
  by simp

end
